theory Spec2Isabelle
  imports Main "HOL-Library.Multiset"
begin

section \<open>Python exceptions\<close>

text \<open>
  The exception classes that \<^verbatim>\<open>utilities.py\<close> raises or catches, with the base class
  of each (Python 2 hierarchy; \<open>IOError\<close> and \<open>OSError\<close> derive from
  \<open>EnvironmentError\<close>). \<open>Subclass name base\<close> stands for any further class
  derived from \<open>base\<close>.
\<close>

datatype exc_class =
    BaseException
  | SystemExit
  | KeyboardInterrupt
  | Exception
  | StandardError
  | EnvironmentError
  | IOError
  | OSError
  | ValueError
  | LookupError
  | KeyError
  | TypeError
  | CalledProcessError
  | Subclass string exc_class

fun ancestors :: "exc_class \<Rightarrow> exc_class list" where
  "ancestors BaseException = [BaseException]"
| "ancestors SystemExit = [SystemExit, BaseException]"
| "ancestors KeyboardInterrupt = [KeyboardInterrupt, BaseException]"
| "ancestors Exception = [Exception, BaseException]"
| "ancestors StandardError = [StandardError, Exception, BaseException]"
| "ancestors EnvironmentError = [EnvironmentError, StandardError, Exception, BaseException]"
| "ancestors IOError = [IOError, EnvironmentError, StandardError, Exception, BaseException]"
| "ancestors OSError = [OSError, EnvironmentError, StandardError, Exception, BaseException]"
| "ancestors ValueError = [ValueError, StandardError, Exception, BaseException]"
| "ancestors LookupError = [LookupError, StandardError, Exception, BaseException]"
| "ancestors KeyError = [KeyError, LookupError, StandardError, Exception, BaseException]"
| "ancestors TypeError = [TypeError, StandardError, Exception, BaseException]"
| "ancestors CalledProcessError = [CalledProcessError, Exception, BaseException]"
| "ancestors (Subclass name b) = Subclass name b # ancestors b"

text \<open>An exception object: its class and its argument (the message, when it has one).\<close>

datatype pyexc = PyExc (exc_cls: exc_class) (exc_arg: string)

definition isinstance :: "pyexc \<Rightarrow> exc_class list \<Rightarrow> bool" where
  "isinstance e classes = (\<exists>c \<in> set classes. c \<in> set (ancestors (exc_cls e)))"

section \<open>The world a call runs in\<close>

type_synonym path = string

text \<open>
  A directory entry. \<open>regular\<close> is what \<^verbatim>\<open>os.path.isfile\<close> reports, the length of
  \<open>content\<close> is \<^verbatim>\<open>os.path.getsize\<close>, \<open>readable\<close>, \<open>writable\<close> and
  \<open>executable\<close> are \<^verbatim>\<open>os.access\<close> with \<^verbatim>\<open>R_OK\<close>, \<^verbatim>\<open>W_OK\<close> and \<^verbatim>\<open>X_OK\<close>;
  \<open>unlink_denied\<close> says that \<^verbatim>\<open>os.unlink\<close> of the entry raises \<^verbatim>\<open>OSError\<close>
  (for instance because its directory is not writable).
\<close>

record node =
  regular :: bool
  content :: string
  readable :: bool
  writable :: bool
  executable :: bool
  unlink_denied :: bool

type_synonym filesystem = "path \<Rightarrow> node option"

datatype level = DEBUG | INFO | WARNING | ERROR | CRITICAL

text \<open>A log record keeps the message and its arguments apart, as \<^verbatim>\<open>logging\<close> does.\<close>

datatype logarg = S string | I int | Obj

type_synonym log_record = "level \<times> string \<times> logarg list"

text \<open>
  What a child process does: it cannot be started (\<^verbatim>\<open>OSError\<close>), or it runs and
  ends with an exit status, the text it wrote to its standard output and error, and the file
  system it leaves behind.
\<close>

datatype child = NotStarted | Exit int string filesystem

text \<open>
  The state shared by every function of the module: the file system, \<^verbatim>\<open>os.environ["PATH"]\<close>
  (absent when the variable is not set), \<^verbatim>\<open>config.resume\<close> and \<^verbatim>\<open>config.verbose\<close>,
  the names \<^verbatim>\<open>tempfile.mkstemp\<close> is going to hand out, the behaviour of the external
  programs (command line, standard input, redirection target of the standard output, file
  system), the records sent to \<^verbatim>\<open>logger\<close>, the lines printed on the console and the
  command lines of the child processes started so far.
\<close>

record world =
  fs :: filesystem
  environ_PATH :: "string option"
  resume :: bool
  verbose :: bool
  temp_names :: "path list"
  program :: "string list \<Rightarrow> string option \<Rightarrow> path option \<Rightarrow> filesystem \<Rightarrow> child"
  logged :: "log_record list"
  printed :: "string list"
  spawned :: "string list list"

text \<open>A call either raises or returns a value, and leaves a world behind.\<close>

type_synonym 'a action = "world \<Rightarrow> (pyexc + 'a) \<times> world"

definition returns :: "'a \<Rightarrow> 'a action" where
  "returns x w = (Inr x, w)"

definition raise :: "pyexc \<Rightarrow> 'a action" where
  "raise e w = (Inl e, w)"

definition bind :: "'a action \<Rightarrow> ('a \<Rightarrow> 'b action) \<Rightarrow> 'b action" where
  "bind m k w = (case m w of (Inl e, w') \<Rightarrow> (Inl e, w') | (Inr x, w') \<Rightarrow> k x w')"

text \<open>\<^verbatim>\<open>for x in xs: body(x)\<close>: the first exception ends the loop.\<close>

fun for_each :: "('a \<Rightarrow> unit action) \<Rightarrow> 'a list \<Rightarrow> unit action" where
  "for_each body [] w = (Inr (), w)"
| "for_each body (x # xs) w =
     (case body x w of (Inl e, w') \<Rightarrow> (Inl e, w') | (Inr u, w') \<Rightarrow> for_each body xs w')"

definition logger :: "level \<Rightarrow> string \<Rightarrow> logarg list \<Rightarrow> world \<Rightarrow> world" where
  "logger lvl msg args w = w\<lparr>logged := logged w @ [(lvl, msg, args)]\<rparr>"

definition py_print :: "string \<Rightarrow> world \<Rightarrow> world" where
  "py_print line w = w\<lparr>printed := printed w @ [line]\<rparr>"

subsection \<open>The operating-system calls the module uses\<close>

definition isfile :: "filesystem \<Rightarrow> path \<Rightarrow> bool" where
  "isfile f p = (case f p of None \<Rightarrow> False | Some n \<Rightarrow> regular n)"

definition exists_path :: "filesystem \<Rightarrow> path \<Rightarrow> bool" where
  "exists_path f p = (f p \<noteq> None)"

definition access_R :: "filesystem \<Rightarrow> path \<Rightarrow> bool" where
  "access_R f p = (case f p of None \<Rightarrow> False | Some n \<Rightarrow> readable n)"

definition access_X :: "filesystem \<Rightarrow> path \<Rightarrow> bool" where
  "access_X f p = (case f p of None \<Rightarrow> False | Some n \<Rightarrow> executable n)"

text \<open>
  \<^verbatim>\<open>os.path.getsize\<close>; the module calls it only on a path for which \<^verbatim>\<open>os.path.isfile\<close>
  has just answered yes, so the \<^verbatim>\<open>OSError\<close> of a missing path is not a branch here.
\<close>

definition getsize :: "filesystem \<Rightarrow> path \<Rightarrow> nat" where
  "getsize f p = (case f p of None \<Rightarrow> 0 | Some n \<Rightarrow> length (content n))"

definition unlink :: "path \<Rightarrow> unit action" where
  "unlink p w =
     (case fs w p of
        None \<Rightarrow> (Inl (PyExc OSError ''No such file or directory''), w)
      | Some n \<Rightarrow>
          if unlink_denied n then (Inl (PyExc OSError ''Permission denied''), w)
          else (Inr (), w\<lparr>fs := (fs w)(p := None)\<rparr>))"

section \<open>remove\_file and check\_outfiles\<close>

text \<open>
  \<^verbatim>\<open>
  def remove_file(file):
      try:
          if os.path.isfile(file):
              os.unlink(file)
              logger.debug("Remove file: %s", file)
      except OSError:
          message="Unable to remove file"
          logger.error(message)
  \<close>
\<close>

definition remove_file :: "path \<Rightarrow> unit action" where
  "remove_file file w =
     (case (if isfile (fs w) file
            then (case unlink file w of
                    (Inl e, w') \<Rightarrow> (Inl e, w')
                  | (Inr u, w') \<Rightarrow> (Inr (), logger DEBUG ''Remove file: %s'' [S file] w'))
            else (Inr (), w)) of
        (Inl e, w') \<Rightarrow>
          if isinstance e [OSError] then (Inr (), logger ERROR ''Unable to remove file'' [] w')
          else (Inl e, w')
      | (Inr u, w') \<Rightarrow> (Inr (), w'))"

text \<open>
  \<^verbatim>\<open>
  def check_outfiles(outfiles):
      bypass=[]
      for file in outfiles:
          if os.path.isfile(file):
              if config.resume and os.path.getsize(file) > 0:
                  bypass.append(True)
              else:
                  bypass.append(False)
          else:
              bypass.append(False)

      if False in bypass or not bypass:
          # remove any existing files
          for file in outfiles:
              remove_file(file)
          return False
      else:
          return True
  \<close>
\<close>

definition bypass_flags :: "path list \<Rightarrow> world \<Rightarrow> bool list" where
  "bypass_flags outfiles w =
     map (\<lambda>file. if isfile (fs w) file
                  then (if resume w \<and> getsize (fs w) file > 0 then True else False)
                  else False) outfiles"

definition check_outfiles :: "path list \<Rightarrow> bool action" where
  "check_outfiles outfiles w =
     (let bypass = bypass_flags outfiles w in
      if False \<in> set bypass \<or> bypass = []
      then (case for_each remove_file outfiles w of
              (Inl e, w') \<Rightarrow> (Inl e, w')
            | (Inr u, w') \<Rightarrow> (Inr False, w'))
      else (Inr True, w))"

section \<open>Facts about remove\_file and check\_outfiles\<close>

lemma remove_file_cases:
  "remove_file file w =
     (if isfile (fs w) file
      then (if unlink_denied (the (fs w file))
            then (Inr (), logger ERROR ''Unable to remove file'' [] w)
            else (Inr (), logger DEBUG ''Remove file: %s'' [S file] (w\<lparr>fs := (fs w)(file := None)\<rparr>)))
      else (Inr (), w))"
  by (auto simp: remove_file_def unlink_def isfile_def isinstance_def split: option.splits)

lemma remove_file_returns: "fst (remove_file file w) = Inr ()"
  by (simp add: remove_file_cases)

lemma remove_file_fs:
  "fs (snd (remove_file file w)) =
     (if isfile (fs w) file \<and> \<not> unlink_denied (the (fs w file)) then (fs w)(file := None) else fs w)"
  by (simp add: remove_file_cases logger_def)

lemma remove_file_resume: "resume (snd (remove_file file w)) = resume w"
  by (simp add: remove_file_cases logger_def)

lemma remove_file_logged_prefix: "\<exists>more. logged (snd (remove_file file w)) = logged w @ more"
  by (simp add: remove_file_cases logger_def)

lemma remove_file_denied_logged:
  "isfile (fs w) file \<Longrightarrow> unlink_denied (the (fs w file)) \<Longrightarrow>
   (ERROR, ''Unable to remove file'', []) \<in> set (logged (snd (remove_file file w)))"
  by (simp add: remove_file_cases logger_def)

lemma for_each_remove_file_returns: "fst (for_each remove_file files w) = Inr ()"
proof (induction files arbitrary: w)
  case Nil
  show ?case by simp
next
  case (Cons fl files)
  obtain w' where step: "remove_file fl w = (Inr (), w')"
    using remove_file_returns [of fl w] by (cases "remove_file fl w") auto
  show ?case using Cons [of w'] by (simp add: step)
qed

lemma for_each_remove_file_logged_prefix:
  "\<exists>more. logged (snd (for_each remove_file files w)) = logged w @ more"
proof (induction files arbitrary: w)
  case Nil
  show ?case by simp
next
  case (Cons fl files)
  obtain w' where step: "remove_file fl w = (Inr (), w')"
    using remove_file_returns [of fl w] by (cases "remove_file fl w") auto
  obtain m1 where m1: "logged w' = logged w @ m1"
    using remove_file_logged_prefix [of fl w] by (auto simp: step)
  obtain m2 where m2: "logged (snd (for_each remove_file files w')) = logged w' @ m2"
    using Cons [of w'] by auto
  show ?case by (simp add: step m1 m2)
qed

text \<open>The deletion loop touches the paths it is given and no other.\<close>

lemma for_each_remove_file_fs:
  "fs (snd (for_each remove_file files w)) p =
     (if p \<in> set files \<and> isfile (fs w) p \<and> \<not> unlink_denied (the (fs w p)) then None else fs w p)"
proof (induction files arbitrary: w)
  case Nil
  show ?case by simp
next
  case (Cons fl files)
  obtain w' where step: "remove_file fl w = (Inr (), w')"
    using remove_file_returns [of fl w] by (cases "remove_file fl w") auto
  have fs': "fs w' = (if isfile (fs w) fl \<and> \<not> unlink_denied (the (fs w fl))
                      then (fs w)(fl := None) else fs w)"
    using remove_file_fs [of fl w] by (simp add: step)
  show ?case
    using Cons [of w'] by (auto simp: step fs' isfile_def)
qed

lemma for_each_remove_file_denied_logged:
  "p \<in> set files \<Longrightarrow> isfile (fs w) p \<Longrightarrow> unlink_denied (the (fs w p)) \<Longrightarrow>
   (ERROR, ''Unable to remove file'', []) \<in> set (logged (snd (for_each remove_file files w)))"
proof (induction files arbitrary: w)
  case Nil
  then show ?case by simp
next
  case (Cons fl files)
  obtain w' where step: "remove_file fl w = (Inr (), w')"
    using remove_file_returns [of fl w] by (cases "remove_file fl w") auto
  show ?case
  proof (cases "p = fl")
    case True
    have "(ERROR, ''Unable to remove file'', []) \<in> set (logged w')"
      using remove_file_denied_logged [of w fl] Cons.prems True by (simp add: step)
    moreover obtain more where "logged (snd (for_each remove_file files w')) = logged w' @ more"
      using for_each_remove_file_logged_prefix [of files w'] by auto
    ultimately show ?thesis by (simp add: step)
  next
    case False
    have fs': "fs w' p = fs w p"
      using remove_file_fs [of fl w] False by (simp add: step)
    have "p \<in> set files" using Cons.prems False by simp
    moreover have "isfile (fs w') p" using Cons.prems fs' by (simp add: isfile_def)
    moreover have "unlink_denied (the (fs w' p))" using Cons.prems fs' by simp
    ultimately show ?thesis using Cons.IH [of w'] by (simp add: step)
  qed
qed

lemma False_in_bypass_flags:
  "False \<in> set (bypass_flags outfiles w) \<longleftrightarrow>
   (\<exists>p \<in> set outfiles. \<not> (isfile (fs w) p \<and> resume w \<and> 0 < getsize (fs w) p))"
  by (auto simp: bypass_flags_def)

lemma check_outfiles_result:
  "fst (check_outfiles outfiles w) =
     Inr (outfiles \<noteq> [] \<and> (\<forall>p \<in> set outfiles. isfile (fs w) p \<and> resume w \<and> 0 < getsize (fs w) p))"
proof -
  obtain w' where loop: "for_each remove_file outfiles w = (Inr (), w')"
    using for_each_remove_file_returns [of outfiles w]
    by (cases "for_each remove_file outfiles w") auto
  have empty: "bypass_flags outfiles w = [] \<longleftrightarrow> outfiles = []"
    by (simp add: bypass_flags_def)
  show ?thesis
    unfolding check_outfiles_def Let_def False_in_bypass_flags empty
    by (auto simp: loop)
qed

lemma check_outfiles_world:
  "snd (check_outfiles outfiles w) =
     (if fst (check_outfiles outfiles w) = Inr True then w
      else snd (for_each remove_file outfiles w))"
proof -
  obtain w' where loop: "for_each remove_file outfiles w = (Inr (), w')"
    using for_each_remove_file_returns [of outfiles w]
    by (cases "for_each remove_file outfiles w") auto
  show ?thesis
    by (simp add: check_outfiles_def Let_def loop)
qed

section \<open>The claims about the Output Freshness Gate\<close>

text \<open>
  Claim C2. For every list of output paths and every state of the resume flag,
  \<open>check_outfiles\<close> returns normally, and it returns \<open>True\<close> (bypass) exactly when the
  resume flag is enabled, every path of the list is an existing file of size greater than
  zero, and the list is not empty; for the empty list it returns \<open>False\<close>.
\<close>

theorem check_outfiles_bypass_iff:
  "fst (check_outfiles outfiles w) =
     Inr (resume w \<and> (\<forall>p \<in> set outfiles. isfile (fs w) p \<and> 0 < getsize (fs w) p) \<and> outfiles \<noteq> [])
   \<and> fst (check_outfiles [] w) = Inr False"
proof -
  have "fst (check_outfiles outfiles w) =
     Inr (resume w \<and> (\<forall>p \<in> set outfiles. isfile (fs w) p \<and> 0 < getsize (fs w) p) \<and> outfiles \<noteq> [])"
    unfolding check_outfiles_result by (cases outfiles) auto
  moreover have "fst (check_outfiles [] w) = Inr False"
    unfolding check_outfiles_result by simp
  ultimately show ?thesis by simp
qed

text \<open>A world to evaluate the functions in: three files, one of which cannot be deleted.\<close>

definition plain_file :: "string \<Rightarrow> node" where
  "plain_file text =
     \<lparr>regular = True, content = text, readable = True, writable = True,
      executable = False, unlink_denied = False\<rparr>"

definition demo_world :: world where
  "demo_world =
     \<lparr>fs = [''out.txt'' \<mapsto> plain_file ''data'',
            ''kept.txt'' \<mapsto> (plain_file ''x'')\<lparr>unlink_denied := True\<rparr>,
            ''in.txt'' \<mapsto> plain_file ''input'',
            ''/bin/tool'' \<mapsto> (plain_file ''#!'')\<lparr>executable := True\<rparr>],
      environ_PATH = Some ''/usr/bin:/bin'',
      resume = True,
      verbose = False,
      temp_names = [''/tmp/tmpA'', ''/tmp/tmpB'', ''/tmp/tmpC''],
      program = (\<lambda>cmd stdin out f. Exit 0 [] f),
      logged = [],
      printed = [],
      spawned = []\<rparr>"

theorem check_outfiles_bypass_iff_witness:
  "resume demo_world
   \<and> isfile (fs demo_world) ''out.txt'' \<and> 0 < getsize (fs demo_world) ''out.txt''
   \<and> isfile (fs demo_world) ''in.txt'' \<and> 0 < getsize (fs demo_world) ''in.txt''
   \<and> fst (check_outfiles [''out.txt'', ''in.txt''] demo_world) = Inr True
   \<and> fst (check_outfiles [''out.txt'', ''absent.txt''] demo_world) = Inr False"
  using check_outfiles_bypass_iff [of "[''out.txt'', ''in.txt'']" demo_world]
    check_outfiles_bypass_iff [of "[''out.txt'', ''absent.txt'']" demo_world]
  by (simp add: demo_world_def plain_file_def isfile_def getsize_def)

text \<open>
  Claim C5. Whenever the decision of \<open>check_outfiles\<close> is not bypass (in particular
  whenever the resume flag is disabled), the gate returns \<open>False\<close> normally and, when it
  returns, every path of the list that was an existing file is gone, unless deleting it
  failed: then the file is left as it was, the failure is logged at level \<open>ERROR\<close>, and the
  gate still returns normally. Paths outside the list are not touched.
\<close>

theorem check_outfiles_deletes:
  assumes "\<not> resume w \<or> fst (check_outfiles outfiles w) \<noteq> Inr True"
  shows "fst (check_outfiles outfiles w) = Inr False
    \<and> (\<forall>p \<in> set outfiles. isfile (fs w) p \<longrightarrow>
          (if unlink_denied (the (fs w p))
           then fs (snd (check_outfiles outfiles w)) p = fs w p
              \<and> (ERROR, ''Unable to remove file'', []) \<in> set (logged (snd (check_outfiles outfiles w)))
           else fs (snd (check_outfiles outfiles w)) p = None
              \<and> \<not> isfile (fs (snd (check_outfiles outfiles w))) p))
    \<and> (\<forall>p. p \<notin> set outfiles \<longrightarrow> fs (snd (check_outfiles outfiles w)) p = fs w p)"
proof -
  have not_bypass: "fst (check_outfiles outfiles w) \<noteq> Inr True"
    using assms by (auto simp: check_outfiles_result)
  then have res: "fst (check_outfiles outfiles w) = Inr False"
    by (simp add: check_outfiles_result)
  have world: "snd (check_outfiles outfiles w) = snd (for_each remove_file outfiles w)"
    using not_bypass by (simp add: check_outfiles_world)
  have gone: "fs (snd (check_outfiles outfiles w)) p = None
              \<and> \<not> isfile (fs (snd (check_outfiles outfiles w))) p"
    if "p \<in> set outfiles" "isfile (fs w) p" "\<not> unlink_denied (the (fs w p))" for p
    using that by (simp add: world for_each_remove_file_fs isfile_def)
  have kept: "fs (snd (check_outfiles outfiles w)) p = fs w p
              \<and> (ERROR, ''Unable to remove file'', []) \<in> set (logged (snd (check_outfiles outfiles w)))"
    if "p \<in> set outfiles" "isfile (fs w) p" "unlink_denied (the (fs w p))" for p
    using that for_each_remove_file_denied_logged [of p outfiles w]
    by (simp add: world for_each_remove_file_fs)
  have others: "fs (snd (check_outfiles outfiles w)) p = fs w p" if "p \<notin> set outfiles" for p
    using that by (simp add: world for_each_remove_file_fs)
  show ?thesis using res gone kept others by auto
qed

theorem check_outfiles_deletes_witness:
  "\<not> resume (demo_world\<lparr>resume := False\<rparr>)
   \<and> isfile (fs (demo_world\<lparr>resume := False\<rparr>)) ''out.txt''
   \<and> isfile (fs (demo_world\<lparr>resume := False\<rparr>)) ''kept.txt''
   \<and> fst (check_outfiles [''out.txt'', ''kept.txt''] (demo_world\<lparr>resume := False\<rparr>)) = Inr False
   \<and> fs (snd (check_outfiles [''out.txt'', ''kept.txt''] (demo_world\<lparr>resume := False\<rparr>))) ''out.txt'' = None
   \<and> fs (snd (check_outfiles [''out.txt'', ''kept.txt''] (demo_world\<lparr>resume := False\<rparr>))) ''kept.txt''
       = fs demo_world ''kept.txt''
   \<and> (ERROR, ''Unable to remove file'', [])
       \<in> set (logged (snd (check_outfiles [''out.txt'', ''kept.txt''] (demo_world\<lparr>resume := False\<rparr>))))
   \<and> fs (snd (check_outfiles [''out.txt'', ''kept.txt''] (demo_world\<lparr>resume := False\<rparr>))) ''in.txt''
       = fs demo_world ''in.txt''"
proof -
  have h: "\<not> resume (demo_world\<lparr>resume := False\<rparr>)
           \<or> fst (check_outfiles [''out.txt'', ''kept.txt''] (demo_world\<lparr>resume := False\<rparr>)) \<noteq> Inr True"
    by simp
  show ?thesis
    using check_outfiles_deletes [OF h]
    by (simp add: demo_world_def plain_file_def isfile_def)
qed

section \<open>Resolving executables and checking files\<close>

text \<open>\<^verbatim>\<open>s.split(sep)\<close> for a one-character separator: the empty string gives one empty field.\<close>

fun split_sep :: "char \<Rightarrow> string \<Rightarrow> string list" where
  "split_sep c [] = [[]]"
| "split_sep c (x # xs) =
     (if x = c then [] # split_sep c xs
      else (case split_sep c xs of [] \<Rightarrow> [[x]] | y # ys \<Rightarrow> (x # y) # ys))"

text \<open>\<^verbatim>\<open>os.path.join(a, b)\<close> of \<^verbatim>\<open>posixpath\<close>: an absolute \<open>b\<close> replaces \<open>a\<close>.\<close>

definition path_join :: "path \<Rightarrow> path \<Rightarrow> path" where
  "path_join a b =
     (if take 1 b = ''/'' then b
      else if a = [] \<or> last a = CHR ''/'' then a @ b
      else a @ ''/'' @ b)"

text \<open>\<^verbatim>\<open>sep.join(xs)\<close>\<close>

fun join :: "string \<Rightarrow> string list \<Rightarrow> string" where
  "join sep [] = []"
| "join sep [x] = x"
| "join sep (x # y # ys) = x @ sep @ join sep (y # ys)"

text \<open>
  \<^verbatim>\<open>
  def find_exe_in_path(exe):
      logger.debug("Find executable, %s, in path", exe)
      paths = os.environ["PATH"].split(os.pathsep)
      for path in paths:
          fullexe = os.path.join(path,exe)
          if os.path.exists(fullexe):
              if os.access(fullexe,os.X_OK):
                  return True
      return False
  \<close>
\<close>

fun search_paths :: "filesystem \<Rightarrow> string \<Rightarrow> path list \<Rightarrow> bool" where
  "search_paths f exe [] = False"
| "search_paths f exe (p # ps) =
     (let fullexe = path_join p exe in
      if exists_path f fullexe
      then (if access_X f fullexe then True else search_paths f exe ps)
      else search_paths f exe ps)"

definition find_exe_in_path :: "string \<Rightarrow> bool action" where
  "find_exe_in_path exe w =
     (let w1 = logger DEBUG ''Find executable, %s, in path'' [S exe] w in
      case environ_PATH w1 of
        None \<Rightarrow> (Inl (PyExc KeyError ''PATH''), w1)
      | Some p \<Rightarrow> (Inr (search_paths (fs w1) exe (split_sep CHR '':'' p)), w1))"

text \<open>
  \<^verbatim>\<open>
  def file_exists_readable(file, raise_IOError=None):
      logger.debug("Check file exists and is readable: %s",file)
      if not os.path.isfile(file):
          message="Can not find file "+ file
          logger.critical(message)
          if raise_IOError:
              print("CRITICAL ERROR: " + message)
              raise IOError
          else:
              sys.exit("CRITICAL ERROR: " + message)
      if not os.access(file, os.R_OK):
          message="Not able to read file " + file
          logger.critical(message)
          if raise_IOError:
              print("CRITICAL ERROR: " + message)
              raise IOError
          else:
              sys.exit("CRITICAL ERROR: " + message)
  \<close>
  \<^verbatim>\<open>sys.exit(message)\<close> raises \<^verbatim>\<open>SystemExit(message)\<close>.
\<close>

definition critical_exit :: "string \<Rightarrow> bool \<Rightarrow> unit action" where
  "critical_exit message raise_IOError w =
     (let w1 = logger CRITICAL message [] w in
      if raise_IOError
      then (Inl (PyExc IOError []), py_print (''CRITICAL ERROR: '' @ message) w1)
      else (Inl (PyExc SystemExit (''CRITICAL ERROR: '' @ message)), w1))"

definition file_exists_readable :: "path \<Rightarrow> bool \<Rightarrow> unit action" where
  "file_exists_readable file raise_IOError w =
     (let w1 = logger DEBUG ''Check file exists and is readable: %s'' [S file] w in
      if \<not> isfile (fs w1) file
      then critical_exit (''Can not find file '' @ file) raise_IOError w1
      else if \<not> access_R (fs w1) file
      then critical_exit (''Not able to read file '' @ file) raise_IOError w1
      else (Inr (), w1))"

section \<open>execute\_command\<close>

text \<open>An argument of a command line is a string or a number; \<^verbatim>\<open>str\<close> makes it text.\<close>

datatype arg = Str string | Num int

definition digit_char :: "nat \<Rightarrow> char" where
  "digit_char d = char_of (48 + d)"

function str_nat :: "nat \<Rightarrow> string" where
  "str_nat n = (if n < 10 then [digit_char n] else str_nat (n div 10) @ [digit_char (n mod 10)])"
  by pat_completeness auto
termination
  by (relation "measure id") auto

definition str_int :: "int \<Rightarrow> string" where
  "str_int i = (if i < 0 then ''-'' @ str_nat (nat (- i)) else str_nat (nat i))"

fun str :: "arg \<Rightarrow> string" where
  "str (Str s) = s"
| "str (Num i) = str_int i"

text \<open>A file name given for a redirection counts when it is neither \<^verbatim>\<open>None\<close> nor empty.\<close>

fun truthy :: "path option \<Rightarrow> bool" where
  "truthy None = False"
| "truthy (Some p) = (p \<noteq> [])"

text \<open>
  \<^verbatim>\<open>open(file, "r")\<close> gives the content of a readable file and raises \<^verbatim>\<open>IOError\<close>
  otherwise; \<^verbatim>\<open>open(file, "w")\<close> creates the file or empties it, and raises
  \<^verbatim>\<open>IOError\<close> on a directory or a file that is not writable.
\<close>

definition open_read :: "path \<Rightarrow> string action" where
  "open_read file w =
     (case fs w file of
        None \<Rightarrow> (Inl (PyExc IOError ''No such file or directory''), w)
      | Some n \<Rightarrow>
          if \<not> regular n then (Inl (PyExc IOError ''Is a directory''), w)
          else if \<not> readable n then (Inl (PyExc IOError ''Permission denied''), w)
          else (Inr (content n), w))"

definition new_file :: node where
  "new_file = \<lparr>regular = True, content = [], readable = True, writable = True,
               executable = False, unlink_denied = False\<rparr>"

definition open_write :: "path \<Rightarrow> unit action" where
  "open_write file w =
     (case fs w file of
        None \<Rightarrow> (Inr (), w\<lparr>fs := (fs w)(file \<mapsto> new_file)\<rparr>)
      | Some n \<Rightarrow>
          if \<not> regular n then (Inl (PyExc IOError ''Is a directory''), w)
          else if \<not> writable n then (Inl (PyExc IOError ''Permission denied''), w)
          else (Inr (), w\<lparr>fs := (fs w)(file \<mapsto> n\<lparr>content := []\<rparr>)\<rparr>))"

text \<open>
  \<^verbatim>\<open>subprocess.call(cmd, stdin=..., stdout=...)\<close> returns the exit status of the child;
  \<^verbatim>\<open>subprocess.check_output(cmd, stderr=subprocess.STDOUT)\<close> returns what the child wrote
  and raises \<^verbatim>\<open>CalledProcessError\<close> on a status other than zero. Both raise
  \<^verbatim>\<open>OSError\<close> when the child cannot be started.
\<close>

definition subprocess_call :: "string list \<Rightarrow> string option \<Rightarrow> path option \<Rightarrow> int action" where
  "subprocess_call cmd stdin stdout w =
     (case program w cmd stdin stdout (fs w) of
        NotStarted \<Rightarrow> (Inl (PyExc OSError ''cannot start the child process''), w)
      | Exit status out f' \<Rightarrow> (Inr status, w\<lparr>fs := f', spawned := spawned w @ [cmd]\<rparr>))"

definition check_output :: "string list \<Rightarrow> string action" where
  "check_output cmd w =
     (case program w cmd None None (fs w) of
        NotStarted \<Rightarrow> (Inl (PyExc OSError ''cannot start the child process''), w)
      | Exit status out f' \<Rightarrow>
          (if status \<noteq> 0 then Inl (PyExc CalledProcessError (join '' '' cmd)) else Inr out,
           w\<lparr>fs := f', spawned := spawned w @ [cmd]\<rparr>))"

text \<open>
  \<^verbatim>\<open>traceback.format_exc()\<close>: the stack frames are left out, the last line names the
  exception.
\<close>

fun class_name :: "exc_class \<Rightarrow> string" where
  "class_name BaseException = ''BaseException''"
| "class_name SystemExit = ''SystemExit''"
| "class_name KeyboardInterrupt = ''KeyboardInterrupt''"
| "class_name Exception = ''Exception''"
| "class_name StandardError = ''StandardError''"
| "class_name EnvironmentError = ''EnvironmentError''"
| "class_name IOError = ''IOError''"
| "class_name OSError = ''OSError''"
| "class_name ValueError = ''ValueError''"
| "class_name LookupError = ''LookupError''"
| "class_name KeyError = ''KeyError''"
| "class_name TypeError = ''TypeError''"
| "class_name CalledProcessError = ''CalledProcessError''"
| "class_name (Subclass name b) = name"

definition format_exc :: "pyexc \<Rightarrow> string" where
  "format_exc e =
     ''Traceback (most recent call last):\<newline>'' @ class_name (exc_cls e) @ '': '' @ exc_arg e @ ''\<newline>''"

text \<open>
  \<^verbatim>\<open>
  def execute_command(exe, args, infiles, outfiles, stdout_file=None, stdin_file=None):
      # check that the executable can be found
      if not find_exe_in_path(exe):
          message="Can not find executable " + exe
          print("CRITICAL ERROR: " + message)
          logger.critical(message)
          raise EnvironmentError
      # check that the input files exist and are readable
      for file in infiles:
          logger.debug("Check input file exists and is readable: %s",file)
          file_exists_readable(file, raise_IOError=True)
      # check if outfiles already exist
      bypass=check_outfiles(outfiles)
      # convert numbers to strings
      args=[str(i) for i in args]
      if not bypass:
          cmd=[exe]+args
          message=" ".join(cmd)
          logger.info("Execute command: "+ message)
          if config.verbose:
              print("\n"+message+"\n")
          try:
              if stdout_file:
                  if stdin_file:
                      p = subprocess.call(cmd, stdin=open(stdin_file,"r"),stdout=open(stdout_file,"w"))
                  else:
                      p = subprocess.call(cmd, stdout=open(stdout_file,"w"))
              else:
                  p_out = subprocess.check_output(cmd, stderr=subprocess.STDOUT)
                  logger.debug(p_out)
          except (EnvironmentError, subprocess.CalledProcessError):
              message="Problem executing " + " ".join(cmd) + "\n"
              logger.critical(message)
              logger.critical("TRACEBACK: \n" + traceback.format_exc())
              print("CRITICAL ERROR: " + message)
              raise
          # check that the output files exist and are readable
          for file in outfiles:
              logger.debug("Check output file exists and is readable: %s",file)
              file_exists_readable(file, raise_IOError=True)
      else:
          if config.verbose:
              print("Bypass: \n" + exe + " " + " ".join(args) + "\n")
          else:
              print("Bypass\n")
  \<close>
\<close>

text \<open>The body of the \<^verbatim>\<open>try\<close>.\<close>

definition start_child :: "string list \<Rightarrow> path option \<Rightarrow> path option \<Rightarrow> unit action" where
  "start_child cmd stdout_file stdin_file =
     (case stdout_file of
        Some out \<Rightarrow>
          if truthy stdout_file
          then (case stdin_file of
                  Some inp \<Rightarrow>
                    if truthy stdin_file
                    then bind (open_read inp) (\<lambda>text.
                         bind (open_write out) (\<lambda>u.
                         bind (subprocess_call cmd (Some text) (Some out)) (\<lambda>p. returns ())))
                    else bind (open_write out) (\<lambda>u.
                         bind (subprocess_call cmd None (Some out)) (\<lambda>p. returns ()))
                | None \<Rightarrow>
                    bind (open_write out) (\<lambda>u.
                    bind (subprocess_call cmd None (Some out)) (\<lambda>p. returns ())))
          else bind (check_output cmd) (\<lambda>p_out w. (Inr (), logger DEBUG p_out [] w))
      | None \<Rightarrow> bind (check_output cmd) (\<lambda>p_out w. (Inr (), logger DEBUG p_out [] w)))"

text \<open>The handler of the \<^verbatim>\<open>except\<close>, before it raises the exception again.\<close>

definition report_problem :: "string list \<Rightarrow> pyexc \<Rightarrow> world \<Rightarrow> world" where
  "report_problem cmd e w =
     (let message = ''Problem executing '' @ join '' '' cmd @ ''\<newline>'' in
      py_print (''CRITICAL ERROR: '' @ message)
        (logger CRITICAL (''TRACEBACK: \<newline>'' @ format_exc e) []
          (logger CRITICAL message [] w)))"

definition check_input_file :: "path \<Rightarrow> unit action" where
  "check_input_file file w =
     file_exists_readable file True
       (logger DEBUG ''Check input file exists and is readable: %s'' [S file] w)"

definition check_output_file :: "path \<Rightarrow> unit action" where
  "check_output_file file w =
     file_exists_readable file True
       (logger DEBUG ''Check output file exists and is readable: %s'' [S file] w)"

text \<open>The branch taken when the gate does not bypass.\<close>

definition run_command ::
  "string \<Rightarrow> string list \<Rightarrow> path list \<Rightarrow> path option \<Rightarrow> path option \<Rightarrow> unit action" where
  "run_command exe args outfiles stdout_file stdin_file w =
     (let cmd = [exe] @ args;
          message = join '' '' cmd;
          w1 = logger INFO (''Execute command: '' @ message) [] w;
          w2 = (if verbose w1 then py_print (''\<newline>'' @ message @ ''\<newline>'') w1 else w1)
      in case start_child cmd stdout_file stdin_file w2 of
           (Inl e, w3) \<Rightarrow>
             if isinstance e [EnvironmentError, CalledProcessError]
             then (Inl e, report_problem cmd e w3)
             else (Inl e, w3)
         | (Inr u, w3) \<Rightarrow> for_each check_output_file outfiles w3)"

definition bypass_notice :: "string \<Rightarrow> string list \<Rightarrow> world \<Rightarrow> world" where
  "bypass_notice exe args w =
     (if verbose w
      then py_print (''Bypass: \<newline>'' @ exe @ '' '' @ join '' '' args @ ''\<newline>'') w
      else py_print ''Bypass\<newline>'' w)"

definition execute_command ::
  "string \<Rightarrow> arg list \<Rightarrow> path list \<Rightarrow> path list \<Rightarrow> path option \<Rightarrow> path option \<Rightarrow> unit action" where
  "execute_command exe args infiles outfiles stdout_file stdin_file w =
     (case find_exe_in_path exe w of
        (Inl e, w1) \<Rightarrow> (Inl e, w1)
      | (Inr found, w1) \<Rightarrow>
          if \<not> found
          then (let message = ''Can not find executable '' @ exe in
                (Inl (PyExc EnvironmentError []),
                 logger CRITICAL message [] (py_print (''CRITICAL ERROR: '' @ message) w1)))
          else (case for_each check_input_file infiles w1 of
                  (Inl e, w2) \<Rightarrow> (Inl e, w2)
                | (Inr u, w2) \<Rightarrow>
                    (case check_outfiles outfiles w2 of
                       (Inl e, w3) \<Rightarrow> (Inl e, w3)
                     | (Inr bypass, w3) \<Rightarrow>
                         (let args' = map str args in
                          if \<not> bypass
                          then run_command exe args' outfiles stdout_file stdin_file w3
                          else (Inr (), bypass_notice exe args' w3)))))"

text \<open>
  \<^verbatim>\<open>
  def execute_command_args_convert(args):
      return execute_command(*args)
  \<close>
\<close>

type_synonym invocation = "string \<times> arg list \<times> path list \<times> path list \<times> path option \<times> path option"

fun execute_command_args_convert :: "invocation \<Rightarrow> unit action" where
  "execute_command_args_convert (exe, args, infiles, outfiles, stdout_file, stdin_file) =
     execute_command exe args infiles outfiles stdout_file stdin_file"

section \<open>Facts about execute\_command\<close>

text \<open>
  An executable name resolves on a search path when some directory of the path holds an
  existing, executable entry of that name.
\<close>

definition resolves :: "filesystem \<Rightarrow> string \<Rightarrow> string \<Rightarrow> bool" where
  "resolves f p exe =
     (\<exists>d \<in> set (split_sep CHR '':'' p).
        exists_path f (path_join d exe) \<and> access_X f (path_join d exe))"

text \<open>The two records each input file leaves in the log when it is checked.\<close>

definition input_check_records :: "path \<Rightarrow> log_record list" where
  "input_check_records file =
     [(DEBUG, ''Check input file exists and is readable: %s'', [S file]),
      (DEBUG, ''Check file exists and is readable: %s'', [S file])]"

text \<open>The diagnostic for an input that is missing or cannot be read.\<close>

definition unreadable_message :: "filesystem \<Rightarrow> path \<Rightarrow> string" where
  "unreadable_message f file =
     (if \<not> isfile f file then ''Can not find file '' @ file else ''Not able to read file '' @ file)"

lemma search_paths_iff:
  "search_paths f exe ps \<longleftrightarrow>
   (\<exists>d \<in> set ps. exists_path f (path_join d exe) \<and> access_X f (path_join d exe))"
  by (induction ps) (auto simp: Let_def)

lemma find_exe_in_path_eq:
  "environ_PATH w = Some p \<Longrightarrow>
   find_exe_in_path exe w =
     (Inr (resolves (fs w) p exe), logger DEBUG ''Find executable, %s, in path'' [S exe] w)"
  by (simp add: find_exe_in_path_def Let_def logger_def resolves_def search_paths_iff)

lemma check_input_file_ok:
  "isfile (fs w) file \<Longrightarrow> access_R (fs w) file \<Longrightarrow>
   check_input_file file w = (Inr (), w\<lparr>logged := logged w @ input_check_records file\<rparr>)"
  by (simp add: check_input_file_def file_exists_readable_def Let_def logger_def
      input_check_records_def)

lemma check_input_file_bad:
  "\<not> (isfile (fs w) file \<and> access_R (fs w) file) \<Longrightarrow>
   check_input_file file w =
     (Inl (PyExc IOError []),
      w\<lparr>logged := logged w @ input_check_records file
                   @ [(CRITICAL, unreadable_message (fs w) file, [])],
        printed := printed w @ [''CRITICAL ERROR: '' @ unreadable_message (fs w) file]\<rparr>)"
  by (auto simp: check_input_file_def file_exists_readable_def Let_def logger_def
      input_check_records_def critical_exit_def py_print_def unreadable_message_def)

lemma check_inputs_ok:
  "\<forall>file \<in> set files. isfile (fs w) file \<and> access_R (fs w) file \<Longrightarrow>
   for_each check_input_file files w =
     (Inr (), w\<lparr>logged := logged w @ concat (map input_check_records files)\<rparr>)"
proof (induction files arbitrary: w)
  case Nil
  show ?case by simp
next
  case (Cons x files)
  let ?w1 = "w\<lparr>logged := logged w @ input_check_records x\<rparr>"
  have step: "check_input_file x w = (Inr (), ?w1)"
    using Cons.prems by (simp add: check_input_file_ok)
  have "\<forall>file \<in> set files. isfile (fs ?w1) file \<and> access_R (fs ?w1) file"
    using Cons.prems by simp
  from Cons.IH [OF this] show ?case by (simp add: step)
qed

lemma check_inputs_bad:
  assumes "\<forall>file \<in> set good. isfile (fs w) file \<and> access_R (fs w) file"
    and "\<not> (isfile (fs w) bad \<and> access_R (fs w) bad)"
  shows "for_each check_input_file (good @ bad # rest) w =
     (Inl (PyExc IOError []),
      w\<lparr>logged := logged w @ concat (map input_check_records good) @ input_check_records bad
                   @ [(CRITICAL, unreadable_message (fs w) bad, [])],
        printed := printed w @ [''CRITICAL ERROR: '' @ unreadable_message (fs w) bad]\<rparr>)"
  using assms
proof (induction good arbitrary: w)
  case Nil
  then show ?case by (simp add: check_input_file_bad)
next
  case (Cons x good)
  let ?w1 = "w\<lparr>logged := logged w @ input_check_records x\<rparr>"
  have step: "check_input_file x w = (Inr (), ?w1)"
    using Cons.prems by (simp add: check_input_file_ok)
  have a: "\<forall>file \<in> set good. isfile (fs ?w1) file \<and> access_R (fs ?w1) file"
    using Cons.prems by simp
  have b: "\<not> (isfile (fs ?w1) bad \<and> access_R (fs ?w1) bad)"
    using Cons.prems by simp
  from Cons.IH [OF a b] show ?case by (simp add: step)
qed

lemma check_outfiles_bypass:
  assumes "resume w" "outfiles \<noteq> []"
    and "\<forall>p \<in> set outfiles. isfile (fs w) p \<and> 0 < getsize (fs w) p"
  shows "check_outfiles outfiles w = (Inr True, w)"
proof -
  have r: "fst (check_outfiles outfiles w) = Inr True"
    using assms by (simp add: check_outfiles_result)
  then have "snd (check_outfiles outfiles w) = w"
    by (simp add: check_outfiles_world)
  with r show ?thesis by (simp add: prod_eq_iff)
qed

section \<open>The claims about the Single Invocation Runner\<close>

text \<open>
  Claim C8. When the executable name does not resolve on the search path,
  \<open>execute_command\<close> raises \<open>EnvironmentError\<close> after printing and logging
  \<open>Can not find executable\<close> followed by the name; nothing else has happened: the
  file system is as it was (no output path is deleted or created) and no child process was
  started.
\<close>

theorem execute_command_exe_not_found:
  assumes "environ_PATH w = Some p" and "\<not> resolves (fs w) p exe"
  shows "execute_command exe args infiles outfiles stdout_file stdin_file w =
     (Inl (PyExc EnvironmentError []),
      w\<lparr>logged := logged w @ [(DEBUG, ''Find executable, %s, in path'', [S exe]),
                               (CRITICAL, ''Can not find executable '' @ exe, [])],
        printed := printed w @ [''CRITICAL ERROR: Can not find executable '' @ exe]\<rparr>)
   \<and> fs (snd (execute_command exe args infiles outfiles stdout_file stdin_file w)) = fs w
   \<and> spawned (snd (execute_command exe args infiles outfiles stdout_file stdin_file w)) = spawned w"
  using assms
  by (simp add: execute_command_def find_exe_in_path_eq logger_def py_print_def Let_def)

theorem execute_command_exe_not_found_witness:
  "environ_PATH demo_world = Some ''/usr/bin:/bin''
   \<and> \<not> resolves (fs demo_world) ''/usr/bin:/bin'' ''nosuchtool''
   \<and> execute_command ''nosuchtool'' [Num 3] [''in.txt''] [''out.txt''] None None demo_world =
       (Inl (PyExc EnvironmentError []),
        demo_world\<lparr>logged := [(DEBUG, ''Find executable, %s, in path'', [S ''nosuchtool'']),
                                (CRITICAL, ''Can not find executable nosuchtool'', [])],
                    printed := [''CRITICAL ERROR: Can not find executable nosuchtool'']\<rparr>)
   \<and> fs (snd (execute_command ''nosuchtool'' [Num 3] [''in.txt''] [''out.txt''] None None demo_world))
       ''out.txt'' = Some (plain_file ''data'')"
proof -
  have h1: "environ_PATH demo_world = Some ''/usr/bin:/bin''"
    by (simp add: demo_world_def)
  have h2: "\<not> resolves (fs demo_world) ''/usr/bin:/bin'' ''nosuchtool''"
    by (simp add: resolves_def demo_world_def path_join_def exists_path_def)
  show ?thesis
    using h1 h2 execute_command_exe_not_found [OF h1 h2, of "[Num 3]" "[''in.txt'']" "[''out.txt'']" None None]
    by (simp add: demo_world_def)
qed

text \<open>
  Claim C4, as stated, fails: with every declared output present and not empty and the
  resume flag enabled, \<open>execute_command\<close> still raises when the executable does not
  resolve or an input file is missing, because both checks come before the gate.
\<close>

theorem execute_command_bypass_counterexample:
  "resume demo_world
   \<and> isfile (fs demo_world) ''out.txt'' \<and> 0 < getsize (fs demo_world) ''out.txt''
   \<and> fst (execute_command ''nosuchtool'' [] [] [''out.txt''] None None demo_world)
       = Inl (PyExc EnvironmentError [])
   \<and> fst (execute_command ''tool'' [] [''absent.txt''] [''out.txt''] None None demo_world)
       = Inl (PyExc IOError [])"
proof -
  have path: "environ_PATH demo_world = Some ''/usr/bin:/bin''"
    by (simp add: demo_world_def)
  have no: "\<not> resolves (fs demo_world) ''/usr/bin:/bin'' ''nosuchtool''"
    by (simp add: resolves_def demo_world_def path_join_def exists_path_def)
  have yes: "resolves (fs demo_world) ''/usr/bin:/bin'' ''tool''"
    by (simp add: resolves_def demo_world_def path_join_def exists_path_def access_X_def
        plain_file_def)
  have absent: "\<not> isfile (fs demo_world) ''absent.txt''"
    by (simp add: demo_world_def isfile_def)
  have a: "fst (execute_command ''nosuchtool'' [] [] [''out.txt''] None None demo_world)
       = Inl (PyExc EnvironmentError [])"
    using no by (simp add: execute_command_def find_exe_in_path_eq [OF path] Let_def)
  have b: "fst (execute_command ''tool'' [] [''absent.txt''] [''out.txt''] None None demo_world)
       = Inl (PyExc IOError [])"
    using yes absent
    by (simp add: execute_command_def find_exe_in_path_eq [OF path] check_input_file_bad
        logger_def)
  have c: "resume demo_world
     \<and> isfile (fs demo_world) ''out.txt'' \<and> 0 < getsize (fs demo_world) ''out.txt''"
    by (simp add: demo_world_def isfile_def getsize_def plain_file_def)
  show ?thesis using a b c by simp
qed

text \<open>
  Claim C4, amended. When the executable resolves on the search path, every input file
  exists and is readable, the list of output paths is not empty, every output path is an
  existing file of size greater than zero and the resume flag is enabled, then
  \<open>execute_command\<close> returns normally without starting a child process and without
  changing the file system; it prints the bypass notice and nothing else, and what it logs
  is at level \<open>DEBUG\<close>.
\<close>

theorem execute_command_bypass:
  assumes "environ_PATH w = Some p" and "resolves (fs w) p exe"
    and "\<forall>file \<in> set infiles. isfile (fs w) file \<and> access_R (fs w) file"
    and "resume w" and "outfiles \<noteq> []"
    and "\<forall>file \<in> set outfiles. isfile (fs w) file \<and> 0 < getsize (fs w) file"
  shows "execute_command exe args infiles outfiles stdout_file stdin_file w =
     (Inr (),
      w\<lparr>logged := logged w @ (DEBUG, ''Find executable, %s, in path'', [S exe])
                   # concat (map input_check_records infiles),
        printed := printed w @
          [if verbose w
           then ''Bypass: \<newline>'' @ exe @ '' '' @ join '' '' (map str args) @ ''\<newline>''
           else ''Bypass\<newline>'']\<rparr>)
   \<and> spawned (snd (execute_command exe args infiles outfiles stdout_file stdin_file w)) = spawned w
   \<and> fs (snd (execute_command exe args infiles outfiles stdout_file stdin_file w)) = fs w"
proof -
  let ?w1 = "logger DEBUG ''Find executable, %s, in path'' [S exe] w"
  let ?w2 = "?w1\<lparr>logged := logged ?w1 @ concat (map input_check_records infiles)\<rparr>"
  have find: "find_exe_in_path exe w = (Inr True, ?w1)"
    using assms(1,2) by (simp add: find_exe_in_path_eq)
  have "\<forall>file \<in> set infiles. isfile (fs ?w1) file \<and> access_R (fs ?w1) file"
    using assms(3) by (simp add: logger_def)
  then have inputs: "for_each check_input_file infiles ?w1 = (Inr (), ?w2)"
    by (rule check_inputs_ok)
  have "resume ?w2" "\<forall>file \<in> set outfiles. isfile (fs ?w2) file \<and> 0 < getsize (fs ?w2) file"
    using assms(4,6) by (simp_all add: logger_def)
  then have gate: "check_outfiles outfiles ?w2 = (Inr True, ?w2)"
    using assms(5) by (simp add: check_outfiles_bypass)
  have run: "execute_command exe args infiles outfiles stdout_file stdin_file w =
      (Inr (), bypass_notice exe (map str args) ?w2)"
    by (simp add: execute_command_def find inputs gate Let_def)
  show ?thesis
    unfolding run by (simp add: bypass_notice_def py_print_def logger_def)
qed

theorem execute_command_bypass_witness:
  "environ_PATH demo_world = Some ''/usr/bin:/bin''
   \<and> resolves (fs demo_world) ''/usr/bin:/bin'' ''tool''
   \<and> isfile (fs demo_world) ''in.txt'' \<and> access_R (fs demo_world) ''in.txt''
   \<and> resume demo_world
   \<and> isfile (fs demo_world) ''out.txt'' \<and> 0 < getsize (fs demo_world) ''out.txt''
   \<and> execute_command ''tool'' [Str ''-n'', Num 3] [''in.txt''] [''out.txt''] None None demo_world =
       (Inr (),
        demo_world\<lparr>logged := [(DEBUG, ''Find executable, %s, in path'', [S ''tool'']),
                                (DEBUG, ''Check input file exists and is readable: %s'', [S ''in.txt'']),
                                (DEBUG, ''Check file exists and is readable: %s'', [S ''in.txt''])],
                    printed := [''Bypass\<newline>'']\<rparr>)
   \<and> spawned (snd (execute_command ''tool'' [Str ''-n'', Num 3] [''in.txt''] [''out.txt''] None None
        demo_world)) = []"
proof -
  have h1: "environ_PATH demo_world = Some ''/usr/bin:/bin''"
    by (simp add: demo_world_def)
  have h2: "resolves (fs demo_world) ''/usr/bin:/bin'' ''tool''"
    by (simp add: resolves_def demo_world_def path_join_def exists_path_def access_X_def
        plain_file_def)
  have h3: "\<forall>file \<in> set [''in.txt'']. isfile (fs demo_world) file \<and> access_R (fs demo_world) file"
    by (simp add: demo_world_def isfile_def access_R_def plain_file_def)
  have h4: "resume demo_world"
    by (simp add: demo_world_def)
  have h5: "[''out.txt''] \<noteq> []"
    by simp
  have h6: "\<forall>file \<in> set [''out.txt'']. isfile (fs demo_world) file \<and> 0 < getsize (fs demo_world) file"
    by (simp add: demo_world_def isfile_def getsize_def plain_file_def)
  show ?thesis
    using h1 h2 h3 h4 h6
      execute_command_bypass [OF h1 h2 h3 h4 h5 h6, of "[Str ''-n'', Num 3]" None None]
    by (simp add: demo_world_def input_check_records_def)
qed

text \<open>
  Claim C7, as stated, fails: when the executable does not resolve, a missing input is not
  checked and not reported; the diagnostic names the executable and no record about the
  input file is logged.
\<close>

theorem execute_command_input_unreadable_counterexample:
  "\<not> isfile (fs demo_world) ''absent.txt''
   \<and> fst (execute_command ''nosuchtool'' [] [''absent.txt''] [] None None demo_world)
       = Inl (PyExc EnvironmentError [])
   \<and> logged (snd (execute_command ''nosuchtool'' [] [''absent.txt''] [] None None demo_world))
       = [(DEBUG, ''Find executable, %s, in path'', [S ''nosuchtool'']),
          (CRITICAL, ''Can not find executable nosuchtool'', [])]
   \<and> printed (snd (execute_command ''nosuchtool'' [] [''absent.txt''] [] None None demo_world))
       = [''CRITICAL ERROR: Can not find executable nosuchtool'']"
proof -
  have path: "environ_PATH demo_world = Some ''/usr/bin:/bin''"
    by (simp add: demo_world_def)
  have no: "\<not> resolves (fs demo_world) ''/usr/bin:/bin'' ''nosuchtool''"
    by (simp add: resolves_def demo_world_def path_join_def exists_path_def)
  have absent: "\<not> isfile (fs demo_world) ''absent.txt''"
    by (simp add: demo_world_def isfile_def)
  have run: "execute_command ''nosuchtool'' [] [''absent.txt''] [] None None demo_world =
      (Inl (PyExc EnvironmentError []),
       demo_world\<lparr>logged := [(DEBUG, ''Find executable, %s, in path'', [S ''nosuchtool'']),
                               (CRITICAL, ''Can not find executable nosuchtool'', [])],
                   printed := [''CRITICAL ERROR: Can not find executable nosuchtool'']\<rparr>)"
    using no
    by (simp add: execute_command_def find_exe_in_path_eq [OF path] Let_def logger_def
        py_print_def) (simp add: demo_world_def)
  show ?thesis using absent by (simp add: run)
qed

text \<open>
  Claim C7, amended. When the executable resolves on the search path,
  \<open>execute_command\<close> checks the input files in order: at the first one that is missing
  or cannot be read it raises \<open>IOError\<close>, having logged at level \<open>CRITICAL\<close> and
  printed a message that names that path. This happens before the gate is consulted, whatever
  the output paths and the resume flag are: the file system is left as it was. So a call that
  returns normally had every input present and readable.
\<close>

theorem execute_command_input_unreadable:
  assumes "environ_PATH w = Some p" and "resolves (fs w) p exe"
  shows "(\<forall>good bad rest.
            infiles = good @ bad # rest
            \<and> (\<forall>file \<in> set good. isfile (fs w) file \<and> access_R (fs w) file)
            \<and> \<not> (isfile (fs w) bad \<and> access_R (fs w) bad)
          \<longrightarrow> execute_command exe args infiles outfiles stdout_file stdin_file w =
               (Inl (PyExc IOError []),
                w\<lparr>logged := logged w @ (DEBUG, ''Find executable, %s, in path'', [S exe])
                             # concat (map input_check_records good) @ input_check_records bad
                             @ [(CRITICAL, unreadable_message (fs w) bad, [])],
                  printed := printed w @ [''CRITICAL ERROR: '' @ unreadable_message (fs w) bad]\<rparr>))
       \<and> (fst (execute_command exe args infiles outfiles stdout_file stdin_file w) = Inr ()
          \<longrightarrow> (\<forall>file \<in> set infiles. isfile (fs w) file \<and> access_R (fs w) file))"
proof -
  let ?w1 = "logger DEBUG ''Find executable, %s, in path'' [S exe] w"
  have find: "find_exe_in_path exe w = (Inr True, ?w1)"
    using assms by (simp add: find_exe_in_path_eq)
  have first: "execute_command exe args (good @ bad # rest) outfiles stdout_file stdin_file w =
               (Inl (PyExc IOError []),
                w\<lparr>logged := logged w @ (DEBUG, ''Find executable, %s, in path'', [S exe])
                             # concat (map input_check_records good) @ input_check_records bad
                             @ [(CRITICAL, unreadable_message (fs w) bad, [])],
                  printed := printed w @ [''CRITICAL ERROR: '' @ unreadable_message (fs w) bad]\<rparr>)"
    if good: "\<forall>file \<in> set good. isfile (fs w) file \<and> access_R (fs w) file"
      and bad: "\<not> (isfile (fs w) bad \<and> access_R (fs w) bad)" for good bad rest
  proof -
    have a: "\<forall>file \<in> set good. isfile (fs ?w1) file \<and> access_R (fs ?w1) file"
      using good by (simp add: logger_def)
    have b: "\<not> (isfile (fs ?w1) bad \<and> access_R (fs ?w1) bad)"
      using bad by (simp add: logger_def)
    show ?thesis
      by (simp add: execute_command_def find check_inputs_bad [OF a b]) (simp add: logger_def)
  qed
  have second: "\<forall>file \<in> set infiles. isfile (fs w) file \<and> access_R (fs w) file"
    if ok: "fst (execute_command exe args infiles outfiles stdout_file stdin_file w) = Inr ()"
  proof (rule ccontr)
    assume "\<not> (\<forall>file \<in> set infiles. isfile (fs w) file \<and> access_R (fs w) file)"
    then have "\<exists>x \<in> set infiles. \<not> (isfile (fs w) x \<and> access_R (fs w) x)" by blast
    then obtain good bad rest where split: "infiles = good @ bad # rest"
      and bad: "\<not> (isfile (fs w) bad \<and> access_R (fs w) bad)"
      and good: "\<forall>file \<in> set good. \<not> \<not> (isfile (fs w) file \<and> access_R (fs w) file)"
      using split_list_first_prop [of infiles "\<lambda>x. \<not> (isfile (fs w) x \<and> access_R (fs w) x)"]
      by blast
    from good have "\<forall>file \<in> set good. isfile (fs w) file \<and> access_R (fs w) file" by blast
    from first [OF this bad, of rest] ok show False by (simp add: split)
  qed
  show ?thesis using first second by blast
qed

theorem execute_command_input_unreadable_witness:
  "environ_PATH demo_world = Some ''/usr/bin:/bin''
   \<and> resolves (fs demo_world) ''/usr/bin:/bin'' ''tool''
   \<and> isfile (fs demo_world) ''in.txt'' \<and> access_R (fs demo_world) ''in.txt''
   \<and> \<not> isfile (fs demo_world) ''absent.txt''
   \<and> execute_command ''tool'' [] [''in.txt'', ''absent.txt'', ''kept.txt''] [''out.txt''] None None
        demo_world =
       (Inl (PyExc IOError []),
        demo_world\<lparr>logged := [(DEBUG, ''Find executable, %s, in path'', [S ''tool'']),
                                (DEBUG, ''Check input file exists and is readable: %s'', [S ''in.txt'']),
                                (DEBUG, ''Check file exists and is readable: %s'', [S ''in.txt'']),
                                (DEBUG, ''Check input file exists and is readable: %s'', [S ''absent.txt'']),
                                (DEBUG, ''Check file exists and is readable: %s'', [S ''absent.txt'']),
                                (CRITICAL, ''Can not find file absent.txt'', [])],
                    printed := [''CRITICAL ERROR: Can not find file absent.txt'']\<rparr>)"
proof -
  have h1: "environ_PATH demo_world = Some ''/usr/bin:/bin''"
    by (simp add: demo_world_def)
  have h2: "resolves (fs demo_world) ''/usr/bin:/bin'' ''tool''"
    by (simp add: resolves_def demo_world_def path_join_def exists_path_def access_X_def
        plain_file_def)
  have h3: "isfile (fs demo_world) ''in.txt'' \<and> access_R (fs demo_world) ''in.txt''"
    by (simp add: demo_world_def isfile_def access_R_def plain_file_def)
  have h4: "\<not> isfile (fs demo_world) ''absent.txt''"
    by (simp add: demo_world_def isfile_def)
  have "execute_command ''tool'' [] [''in.txt'', ''absent.txt'', ''kept.txt''] [''out.txt''] None None
        demo_world =
       (Inl (PyExc IOError []),
        demo_world\<lparr>logged := logged demo_world @ (DEBUG, ''Find executable, %s, in path'', [S ''tool''])
                      # concat (map input_check_records [''in.txt'']) @ input_check_records ''absent.txt''
                      @ [(CRITICAL, unreadable_message (fs demo_world) ''absent.txt'', [])],
                    printed := printed demo_world
                      @ [''CRITICAL ERROR: '' @ unreadable_message (fs demo_world) ''absent.txt'']\<rparr>)"
    using execute_command_input_unreadable [OF h1 h2, THEN conjunct1, rule_format,
        of "[''in.txt'', ''absent.txt'', ''kept.txt'']" "[''in.txt'']" "''absent.txt''" "[''kept.txt'']"
           "[]" "[''out.txt'']" None None]
      h3 h4
    by simp
  then show ?thesis
    using h1 h2 h3 h4
    by (simp add: input_check_records_def unreadable_message_def) (simp add: demo_world_def)
qed

section \<open>The Sequence Chunker\<close>

text \<open>
  \<^verbatim>\<open>
  def unnamed_temp_file():
      file_out, new_file=tempfile.mkstemp(dir=config.unnamed_temp_dir)
      os.close(file_out)
      return(new_file)
  \<close>
  \<^verbatim>\<open>tempfile.mkstemp\<close> tries candidate names until one does not exist yet, creates
  that file empty, and raises \<^verbatim>\<open>IOError\<close> when it runs out of candidates. The
  candidates are the \<open>temp_names\<close> of the world.
\<close>

definition unnamed_temp_file :: "path action" where
  "unnamed_temp_file w =
     (case dropWhile (exists_path (fs w)) (temp_names w) of
        [] \<Rightarrow> (Inl (PyExc IOError ''No usable temporary file name found''), w\<lparr>temp_names := []\<rparr>)
      | name # rest \<Rightarrow> (Inr name, w\<lparr>fs := (fs w)(name \<mapsto> new_file), temp_names := rest\<rparr>))"

text \<open>
  The successive results of \<^verbatim>\<open>readline()\<close> on a file with the given content, up to the
  end of the file: each line keeps its newline, the last one may lack it.
\<close>

fun lines_of :: "string \<Rightarrow> string list" where
  "lines_of [] = []"
| "lines_of (c # cs) =
     (if c = CHR 0x0A then [c] # lines_of cs
      else (case lines_of cs of [] \<Rightarrow> [[c]] | l # ls \<Rightarrow> (c # l) # ls))"

text \<open>\<^verbatim>\<open>re.search("^>", line)\<close>\<close>

definition is_header :: "string \<Rightarrow> bool" where
  "is_header line = (take 1 line = ''>'')"

text \<open>\<^verbatim>\<open>file_out.write(line)\<close> on the file opened at the given path.\<close>

definition write_text :: "path \<Rightarrow> string \<Rightarrow> world \<Rightarrow> world" where
  "write_text file text w =
     (case fs w file of
        None \<Rightarrow> w
      | Some n \<Rightarrow> w\<lparr>fs := (fs w)(file \<mapsto> n\<lparr>content := content n @ text\<rparr>)\<rparr>)"

text \<open>
  \<^verbatim>\<open>
  def break_up_fasta_file(fasta_file, max_seqs):
      # check file exists
      file_exists_readable(fasta_file)
      file_handle_read=open(fasta_file,"r")
      line=file_handle_read.readline()
      new_file=unnamed_temp_file()
      file_out=open(new_file,"w")
      fasta_files=[new_file]
      current_seq=0
      while line:
          if not re.search("^>",line):
              file_out.write(line)
          else:
              if current_seq == max_seqs:
                  # close current file and open new
                  file_out.close()
                  new_file=unnamed_temp_file()
                  file_out=open(new_file,"w")
                  fasta_files+=[new_file]
                  file_out.write(line)
                  current_seq=1
              else:
                  current_seq+=1
                  file_out.write(line)
          line=file_handle_read.readline()
      file_out.close()
      file_handle_read.close()
      return fasta_files
  \<close>
  The \<^verbatim>\<open>while\<close> loop runs over the lines still to be read.
\<close>

fun chunk_loop ::
  "int \<Rightarrow> string list \<Rightarrow> path \<Rightarrow> path list \<Rightarrow> nat \<Rightarrow> world \<Rightarrow> (pyexc + path list) \<times> world" where
  "chunk_loop max_seqs [] file_out fasta_files current_seq w = (Inr fasta_files, w)"
| "chunk_loop max_seqs (line # lines) file_out fasta_files current_seq w =
     (if \<not> is_header line
      then chunk_loop max_seqs lines file_out fasta_files current_seq (write_text file_out line w)
      else if int current_seq = max_seqs
      then (case unnamed_temp_file w of
              (Inl e, w1) \<Rightarrow> (Inl e, w1)
            | (Inr new_name, w1) \<Rightarrow>
                (case open_write new_name w1 of
                   (Inl e, w2) \<Rightarrow> (Inl e, w2)
                 | (Inr u, w2) \<Rightarrow>
                     chunk_loop max_seqs lines new_name (fasta_files @ [new_name]) 1
                       (write_text new_name line w2)))
      else chunk_loop max_seqs lines file_out fasta_files (current_seq + 1)
             (write_text file_out line w))"

definition break_up_fasta_file :: "path \<Rightarrow> int \<Rightarrow> path list action" where
  "break_up_fasta_file fasta_file max_seqs w =
     (case file_exists_readable fasta_file False w of
        (Inl e, w1) \<Rightarrow> (Inl e, w1)
      | (Inr u, w1) \<Rightarrow>
          (case open_read fasta_file w1 of
             (Inl e, w2) \<Rightarrow> (Inl e, w2)
           | (Inr text, w2) \<Rightarrow>
               (case unnamed_temp_file w2 of
                  (Inl e, w3) \<Rightarrow> (Inl e, w3)
                | (Inr new_name, w3) \<Rightarrow>
                    (case open_write new_name w3 of
                       (Inl e, w4) \<Rightarrow> (Inl e, w4)
                     | (Inr u, w4) \<Rightarrow>
                         chunk_loop max_seqs (lines_of text) new_name [new_name] 0 w4))))"


subsection \<open>Records and chunks\<close>

text \<open>
  A record is a header line and the lines after it up to the next header. Parsing a list of
  lines gives the lines before the first header and the records.
\<close>

fun parse_records :: "string list \<Rightarrow> string list \<times> string list list" where
  "parse_records [] = ([], [])"
| "parse_records (l # ls) =
     (case parse_records ls of
        (pre, recs) \<Rightarrow> if is_header l then ([], (l # pre) # recs) else (l # pre, recs))"

definition records :: "string list \<Rightarrow> string list list" where
  "records ls = snd (parse_records ls)"

text \<open>The content of a file, and the records it holds.\<close>

definition file_text :: "filesystem \<Rightarrow> path \<Rightarrow> string" where
  "file_text f p = (case f p of None \<Rightarrow> [] | Some n \<Rightarrow> content n)"

definition file_records :: "filesystem \<Rightarrow> path \<Rightarrow> string list list" where
  "file_records f p = records (lines_of (file_text f p))"

text \<open>
  The chunks the loop produces, as lists of lines: the first one continues the file that is
  open, with \<open>c\<close> records in it already.
\<close>

fun split_lines :: "int \<Rightarrow> nat \<Rightarrow> string list \<Rightarrow> string list list" where
  "split_lines k c [] = [[]]"
| "split_lines k c (l # ls) =
     (if \<not> is_header l then (case split_lines k c ls of [] \<Rightarrow> [[l]] | ch # chs \<Rightarrow> (l # ch) # chs)
      else if int c = k
      then [] # (case split_lines k 1 ls of [] \<Rightarrow> [[l]] | ch # chs \<Rightarrow> (l # ch) # chs)
      else (case split_lines k (c + 1) ls of [] \<Rightarrow> [[l]] | ch # chs \<Rightarrow> (l # ch) # chs))"

lemma split_lines_nonempty: "split_lines k c ls \<noteq> []"
  by (induction ls arbitrary: c) (auto split: list.splits)

lemma concat_split_lines: "concat (split_lines k c ls) = ls"
proof (induction ls arbitrary: c)
  case Nil
  show ?case by simp
next
  case (Cons l ls)
  show ?case
    using Cons [of c] Cons [of 1] Cons [of "c + 1"]
      split_lines_nonempty [of k c ls] split_lines_nonempty [of k 1 ls]
      split_lines_nonempty [of k "c + 1" ls]
    by (auto split: list.splits)
qed

lemma split_lines_tail_headers:
  "\<forall>ch \<in> set (tl (split_lines k c ls)). ch \<noteq> [] \<and> is_header (hd ch)"
proof (induction ls arbitrary: c)
  case Nil
  show ?case by simp
next
  case (Cons l ls)
  show ?case
    using Cons [of c] Cons [of 1] Cons [of "c + 1"]
    by (auto split: list.splits)
qed

definition headers :: "string list \<Rightarrow> nat" where
  "headers ls = length (filter is_header ls)"

lemma headers_simps [simp]:
  "headers [] = 0"
  "headers (l # ls) = (if is_header l then Suc (headers ls) else headers ls)"
  by (simp_all add: headers_def)

lemma length_records: "length (records ls) = headers ls"
  by (induction ls) (auto simp: records_def split: prod.splits)

lemma length_split_lines:
  assumes "1 \<le> k" "int c \<le> k"
  shows "length (split_lines k c ls) = 1 + (headers ls + c - 1) div nat k"
  using assms(2)
proof (induction ls arbitrary: c)
  case Nil
  have "c - 1 < nat k" using assms(1) Nil by linarith
  then have "(c - 1) div nat k = 0" by simp
  then show ?case by simp
next
  case (Cons l ls)
  show ?case
  proof (cases "is_header l")
    case False
    then show ?thesis
      using Cons.IH [of c] Cons.prems split_lines_nonempty [of k c ls]
      by (auto split: list.splits)
  next
    case True
    show ?thesis
    proof (cases "int c = k")
      case full: True
      have one: "int 1 \<le> k" using assms(1) by simp
      have ck: "c = nat k" using full by simp
      have "(Suc (headers ls) + c - 1) div nat k = (headers ls + nat k) div nat k"
        by (simp add: ck)
      also have "\<dots> = 1 + headers ls div nat k"
      proof -
        have "0 < nat k" using assms(1) by simp
        then show ?thesis by (simp add: div_add_self2)
      qed
      finally have eq: "(Suc (headers ls) + c - 1) div nat k = 1 + headers ls div nat k" .
      show ?thesis
        using True full Cons.IH [OF one] split_lines_nonempty [of k 1 ls] eq
        by (auto split: list.splits)
    next
      case notfull: False
      have less: "int (c + 1) \<le> k" using notfull Cons.prems by simp
      show ?thesis
        using True notfull Cons.IH [OF less] split_lines_nonempty [of k "c + 1" ls]
        by (auto split: list.splits)
    qed
  qed
qed

lemma length_split_lines_le: "length (split_lines k c ls) \<le> 1 + headers ls"
proof (induction ls arbitrary: c)
  case Nil
  show ?case by simp
next
  case (Cons l ls)
  show ?case
    using Cons [of c] Cons [of 1] Cons [of "c + 1"]
      split_lines_nonempty [of k c ls] split_lines_nonempty [of k 1 ls]
      split_lines_nonempty [of k "c + 1" ls]
    by (auto split: list.splits)
qed

lemma headers_append: "headers (xs @ ys) = headers xs + headers ys"
  by (simp add: headers_def)

lemma headers_split_lines_bound:
  assumes "1 \<le> k" "int c \<le> k"
  shows "headers (hd (split_lines k c ls)) + c \<le> nat k
       \<and> (\<forall>ch \<in> set (tl (split_lines k c ls)). headers ch \<le> nat k)"
  using assms(2)
proof (induction ls arbitrary: c)
  case Nil
  then show ?case by simp
next
  case (Cons l ls)
  show ?case
  proof (cases "is_header l")
    case False
    then show ?thesis
      using Cons.IH [of c] Cons.prems split_lines_nonempty [of k c ls]
      by (auto split: list.splits)
  next
    case True
    show ?thesis
    proof (cases "int c = k")
      case full: True
      have one: "int 1 \<le> k" using assms(1) by simp
      show ?thesis
        using True full Cons.IH [OF one] split_lines_nonempty [of k 1 ls] Cons.prems
        by (auto split: list.splits)
    next
      case notfull: False
      have less: "int (c + 1) \<le> k" using notfull Cons.prems by simp
      show ?thesis
        using True notfull Cons.IH [OF less] split_lines_nonempty [of k "c + 1" ls]
        by (auto split: list.splits)
    qed
  qed
qed

lemma parse_records_append_header:
  "is_header h \<Longrightarrow>
   parse_records (xs @ h # ys) =
     (fst (parse_records xs), snd (parse_records xs) @ snd (parse_records (h # ys)))"
  by (induction xs) (auto split: prod.splits)

lemma records_append:
  "ys = [] \<or> is_header (hd ys) \<Longrightarrow> records (xs @ ys) = records xs @ records ys"
proof (cases ys)
  case Nil
  then show ?thesis by (simp add: records_def)
next
  case (Cons h t)
  assume "ys = [] \<or> is_header (hd ys)"
  then have "is_header h" using Cons by simp
  then show ?thesis
    using parse_records_append_header [of h xs t] Cons by (simp add: records_def)
qed

lemma records_concat:
  "\<forall>ch \<in> set chs. ch \<noteq> [] \<and> is_header (hd ch) \<Longrightarrow>
   records (ch0 @ concat chs) = records ch0 @ concat (map records chs)"
proof (induction chs arbitrary: ch0)
  case Nil
  show ?case by simp
next
  case (Cons ch chs)
  have "records (ch0 @ concat (ch # chs)) = records ((ch0 @ ch) @ concat chs)" by simp
  also have "\<dots> = records (ch0 @ ch) @ concat (map records chs)"
    using Cons.IH [of "ch0 @ ch"] Cons.prems by simp
  also have "records (ch0 @ ch) = records ch0 @ records ch"
    using Cons.prems by (intro records_append) simp
  finally show ?case by simp
qed

lemma records_split_lines:
  "concat (map records (split_lines k c ls)) = records ls"
proof -
  obtain ch0 chs where sp: "split_lines k c ls = ch0 # chs"
    using split_lines_nonempty [of k c ls] by (cases "split_lines k c ls") auto
  have tl: "\<forall>ch \<in> set chs. ch \<noteq> [] \<and> is_header (hd ch)"
    using split_lines_tail_headers [of k c ls] by (simp add: sp)
  have ls: "ch0 @ concat chs = ls"
    using concat_split_lines [of k c ls] by (simp add: sp)
  have "concat (map records (split_lines k c ls)) = records ch0 @ concat (map records chs)"
    by (simp add: sp)
  also have "\<dots> = records (ch0 @ concat chs)"
    using records_concat [OF tl, of ch0] by simp
  finally show ?thesis by (simp add: ls)
qed


lemma concat_lines_of: "concat (lines_of s) = s"
  by (induction s) (auto split: list.splits)

fun proper_lines :: "string list \<Rightarrow> bool" where
  "proper_lines [] = True"
| "proper_lines [l] = (l \<noteq> [] \<and> CHR 0x0A \<notin> set (butlast l))"
| "proper_lines (l # l' # ls) =
     (l \<noteq> [] \<and> CHR 0x0A \<notin> set (butlast l) \<and> last l = CHR 0x0A \<and> proper_lines (l' # ls))"

lemma lines_of_terminated:
  "CHR 0x0A \<notin> set body \<Longrightarrow> lines_of (body @ CHR 0x0A # rest) = (body @ [CHR 0x0A]) # lines_of rest"
  by (induction body) auto

lemma lines_of_single:
  "body \<noteq> [] \<Longrightarrow> CHR 0x0A \<notin> set (butlast body) \<Longrightarrow> lines_of body = [body]"
proof (induction body)
  case Nil
  then show ?case by simp
next
  case (Cons c body)
  show ?case
  proof (cases "body = []")
    case True
    then show ?thesis by simp
  next
    case False
    then show ?thesis using Cons by (auto split: list.splits)
  qed
qed

lemma lines_of_concat: "proper_lines ls \<Longrightarrow> lines_of (concat ls) = ls"
proof (induction ls rule: proper_lines.induct)
  case 1
  show ?case by simp
next
  case (2 l)
  then show ?case by (simp add: lines_of_single)
next
  case (3 l l' ls)
  then have l: "l \<noteq> []" "CHR 0x0A \<notin> set (butlast l)" "last l = CHR 0x0A"
    and rest: "lines_of (concat (l' # ls)) = l' # ls"
    by simp_all
  obtain body where body: "l = body @ [CHR 0x0A]" "CHR 0x0A \<notin> set body"
    using l by (metis append_butlast_last_id)
  have "lines_of (concat (l # l' # ls)) = lines_of (body @ CHR 0x0A # concat (l' # ls))"
    by (simp add: body(1))
  also have "\<dots> = (body @ [CHR 0x0A]) # lines_of (concat (l' # ls))"
    by (rule lines_of_terminated [OF body(2)])
  finally show ?case
    by (simp only: rest body(1))
qed

lemma proper_lines_Cons:
  "proper_lines (l # ls) \<longleftrightarrow>
   l \<noteq> [] \<and> CHR 0x0A \<notin> set (butlast l) \<and> (ls \<noteq> [] \<longrightarrow> last l = CHR 0x0A) \<and> proper_lines ls"
  by (cases ls) auto

lemma proper_lines_of: "proper_lines (lines_of s)"
proof (induction s)
  case Nil
  show ?case by simp
next
  case (Cons c s)
  show ?case
  proof (cases "c = CHR 0x0A")
    case True
    then show ?thesis using Cons by (simp add: proper_lines_Cons)
  next
    case False
    show ?thesis
    proof (cases "lines_of s")
      case Nil
      then show ?thesis using False by simp
    next
      case (Cons l ls)
      then have "proper_lines (l # ls)" using Cons.IH by simp
      then show ?thesis
        using False Cons by (auto simp: proper_lines_Cons)
    qed
  qed
qed

lemma proper_lines_append:
  "proper_lines (xs @ ys) \<Longrightarrow> proper_lines xs \<and> proper_lines ys"
  by (induction xs) (auto simp: proper_lines_Cons)

lemma proper_lines_concat:
  "proper_lines (concat chs) \<Longrightarrow> \<forall>ch \<in> set chs. proper_lines ch"
  by (induction chs) (auto dest: proper_lines_append)


lemma unnamed_temp_file_fresh:
  assumes "temp_names w = a # rest" "fs w a = None"
  shows "unnamed_temp_file w = (Inr a, w\<lparr>fs := (fs w)(a \<mapsto> new_file), temp_names := rest\<rparr>)"
  using assms by (simp add: unnamed_temp_file_def exists_path_def)

lemma open_write_new_file:
  "fs w a = Some new_file \<Longrightarrow> open_write a w = (Inr (), w)"
  by (simp add: open_write_def new_file_def fun_upd_idem)

lemma write_text_existing:
  "fs w p = Some n \<Longrightarrow>
   write_text p text w = w\<lparr>fs := (fs w)(p \<mapsto> n\<lparr>content := content n @ text\<rparr>)\<rparr>"
  by (simp add: write_text_def)

lemma chunk_loop_writes:
  assumes "fs w out = Some n"
    and "distinct (temp_names w)"
    and "\<forall>p \<in> set (temp_names w). fs w p = None"
    and "length (split_lines k c ls) \<le> Suc (length (temp_names w))"
  shows "\<exists>w'. chunk_loop k ls out files c w =
            (Inr (files @ take (length (split_lines k c ls) - 1) (temp_names w)), w')
     \<and> fs w' out = Some (n\<lparr>content := content n @ concat (hd (split_lines k c ls))\<rparr>)
     \<and> map (fs w') (take (length (split_lines k c ls) - 1) (temp_names w))
         = map (\<lambda>ch. Some (new_file\<lparr>content := concat ch\<rparr>)) (tl (split_lines k c ls))
     \<and> (\<forall>p. p \<noteq> out \<and> p \<notin> set (take (length (split_lines k c ls) - 1) (temp_names w))
            \<longrightarrow> fs w' p = fs w p)"
  using assms
proof (induction ls arbitrary: out files c w n)
  case Nil
  then show ?case by simp
next
  case (Cons l ls)
  let ?same = "write_text out l w"
  have same_fs: "fs ?same = (fs w)(out \<mapsto> n\<lparr>content := content n @ l\<rparr>)"
    using Cons.prems(1) by (simp add: write_text_existing)
  have out_not_temp: "out \<notin> set (temp_names w)"
    using Cons.prems(1,3) by auto
  have same_names: "temp_names ?same = temp_names w"
    using Cons.prems(1) by (simp add: write_text_existing)
  have same_fresh: "\<forall>p \<in> set (temp_names ?same). fs ?same p = None"
    using Cons.prems(3) out_not_temp by (auto simp: same_fs same_names)
  have same_out: "fs ?same out = Some (n\<lparr>content := content n @ l\<rparr>)"
    by (simp add: same_fs)
  have same_distinct: "distinct (temp_names ?same)"
    using Cons.prems(2) by (simp add: same_names)
  show ?case
  proof (cases "is_header l \<and> int c = k")
    case False
    define c' where "c' = (if is_header l then c + 1 else c)"
    obtain ch chs where sp: "split_lines k c' ls = ch # chs"
      using split_lines_nonempty [of k c' ls] by (cases "split_lines k c' ls") auto
    have whole: "split_lines k c (l # ls) = (l # ch) # chs"
      using False sp by (auto simp: c'_def)
    have loop: "chunk_loop k (l # ls) out files c w = chunk_loop k ls out files c' ?same"
      using False by (auto simp: c'_def)
    have enough: "length (split_lines k c' ls) \<le> Suc (length (temp_names ?same))"
      using Cons.prems(4) [unfolded whole] by (simp add: sp same_names)
    from Cons.IH [OF same_out same_distinct same_fresh enough, of files]
    obtain w' where run: "chunk_loop k ls out files c' ?same =
            (Inr (files @ take (length chs) (temp_names w)), w')"
      and out': "fs w' out = Some (n\<lparr>content := content n @ l @ concat ch\<rparr>)"
      and new': "map (fs w') (take (length chs) (temp_names w))
          = map (\<lambda>ch. Some (new_file\<lparr>content := concat ch\<rparr>)) chs"
      and frame': "\<forall>p. p \<noteq> out \<and> p \<notin> set (take (length chs) (temp_names w))
            \<longrightarrow> fs w' p = fs ?same p"
      by (auto simp: sp same_names)
    have frame: "\<forall>p. p \<noteq> out \<and> p \<notin> set (take (length chs) (temp_names w))
            \<longrightarrow> fs w' p = fs w p"
      using frame' by (simp add: same_fs)
    show ?thesis
      unfolding loop whole using run out' new' frame by simp
  next
    case True
    obtain ch chs where sp: "split_lines k 1 ls = ch # chs"
      using split_lines_nonempty [of k 1 ls] by (cases "split_lines k 1 ls") auto
    have whole: "split_lines k c (l # ls) = [] # (l # ch) # chs"
      using True sp by auto
    obtain a rest where names: "temp_names w = a # rest"
      using Cons.prems(4) [unfolded whole] by (cases "temp_names w") auto
    have a_fresh: "fs w a = None" using Cons.prems(3) names by simp
    have a_out: "a \<noteq> out" using out_not_temp names by auto
    let ?w1 = "w\<lparr>fs := (fs w)(a \<mapsto> new_file), temp_names := rest\<rparr>"
    let ?w3 = "w\<lparr>fs := (fs w)(a \<mapsto> new_file\<lparr>content := l\<rparr>), temp_names := rest\<rparr>"
    have mk: "unnamed_temp_file w = (Inr a, ?w1)"
      by (rule unnamed_temp_file_fresh [OF names a_fresh])
    have op: "open_write a ?w1 = (Inr (), ?w1)"
      by (rule open_write_new_file) simp
    have wr: "write_text a l ?w1 = ?w3"
      by (simp add: write_text_def new_file_def)
    have loop: "chunk_loop k (l # ls) out files c w = chunk_loop k ls a (files @ [a]) 1 ?w3"
      using True by (simp add: mk op wr)
    have p1: "fs ?w3 a = Some (new_file\<lparr>content := l\<rparr>)" by simp
    have p2: "distinct (temp_names ?w3)" using Cons.prems(2) names by simp
    have p3: "\<forall>p \<in> set (temp_names ?w3). fs ?w3 p = None"
      using Cons.prems(2,3) names by auto
    have p4: "length (split_lines k 1 ls) \<le> Suc (length (temp_names ?w3))"
      unfolding sp using Cons.prems(4) [unfolded whole] by (simp add: names)
    from Cons.IH [OF p1 p2 p3 p4, of "files @ [a]", unfolded sp]
    obtain w' where run: "chunk_loop k ls a (files @ [a]) 1 ?w3 =
            (Inr ((files @ [a]) @ take (length chs) rest), w')"
      and out': "fs w' a = Some (new_file\<lparr>content := l @ concat ch\<rparr>)"
      and new': "map (fs w') (take (length chs) rest)
          = map (\<lambda>ch. Some (new_file\<lparr>content := concat ch\<rparr>)) chs"
      and frame': "\<forall>p. p \<noteq> a \<and> p \<notin> set (take (length chs) rest) \<longrightarrow> fs w' p = fs ?w3 p"
      by auto
    have "out \<notin> set (take (length chs) rest)"
      using out_not_temp names by (auto dest: in_set_takeD)
    then have keep: "fs w' out = Some n"
      using frame' a_out Cons.prems(1) by simp
    have frame: "\<forall>p. p \<noteq> out \<and> p \<notin> set (a # take (length chs) rest) \<longrightarrow> fs w' p = fs w p"
      using frame' by simp
    show ?thesis
      unfolding loop whole using run out' new' frame keep by (simp add: names)
  qed
qed


text \<open>Division rounded up.\<close>

definition ceil_div :: "nat \<Rightarrow> nat \<Rightarrow> nat" where
  "ceil_div a b = (a + b - 1) div b"

lemma map_fs_file_text:
  "map f ps = map (\<lambda>ch. Some (new_file\<lparr>content := concat ch\<rparr>)) chs \<Longrightarrow>
   map (file_text f) ps = map concat chs"
proof (induction ps arbitrary: chs)
  case Nil
  then show ?case by simp
next
  case (Cons p ps)
  then obtain ch chs' where chs: "chs = ch # chs'" by (cases chs) auto
  show ?case using Cons by (simp add: chs file_text_def)
qed

lemma map_fs_isfile:
  "map f ps = map (\<lambda>ch. Some (new_file\<lparr>content := concat ch\<rparr>)) chs \<Longrightarrow>
   \<forall>p \<in> set ps. isfile f p"
proof (induction ps arbitrary: chs)
  case Nil
  then show ?case by simp
next
  case (Cons p ps)
  then obtain ch chs' where chs: "chs = ch # chs'" by (cases chs) auto
  show ?case using Cons by (auto simp: chs isfile_def new_file_def)
qed

text \<open>
  Claim C9. For a source file that exists and can be read, holding \<open>R\<close> records, and
  any chunk size \<open>k\<close>, \<open>break_up_fasta_file\<close> returns, when \<^verbatim>\<open>mkstemp\<close>
  has more unused names to hand out than there are records, a list of chunk files. The paths
  are the names handed out, in the order of their creation, all different and different from
  the source; the texts of the chunks, one after the other in list order, are the text of the
  source, and so are their records: every record is in exactly one chunk, in the order of the
  source. The source is left as it was. For a chunk size of at least one, where \<open>R\<close>
  divided by \<open>k\<close> is defined, the number of chunks is that quotient rounded up, one
  when \<open>R\<close> is zero, and no chunk holds more than \<open>k\<close> records.
\<close>

theorem break_up_fasta_file_chunks:
  assumes src: "isfile (fs w) src" "access_R (fs w) src"
    and names: "distinct (temp_names w)" "\<forall>p \<in> set (temp_names w). \<not> exists_path (fs w) p"
    and enough: "length (file_records (fs w) src) < length (temp_names w)"
  shows "\<exists>files w'. break_up_fasta_file src k w = (Inr files, w')
     \<and> (1 \<le> k \<longrightarrow>
            length files = (if length (file_records (fs w) src) = 0 then 1
                            else ceil_div (length (file_records (fs w) src)) (nat k))
          \<and> (\<forall>p \<in> set files. length (file_records (fs w') p) \<le> nat k))
     \<and> files = take (length files) (temp_names w)
     \<and> distinct files \<and> src \<notin> set files
     \<and> (\<forall>p \<in> set files. isfile (fs w') p)
     \<and> concat (map (file_text (fs w')) files) = file_text (fs w) src
     \<and> concat (map (file_records (fs w')) files) = file_records (fs w) src
     \<and> fs w' src = fs w src"
proof -
  define src_text where "src_text = file_text (fs w) src"
  define chunks where "chunks = split_lines k 0 (lines_of src_text)"
  define R where "R = length (file_records (fs w) src)"
  obtain n where n: "fs w src = Some n" "regular n" "readable n"
    using src by (auto simp: isfile_def access_R_def split: option.splits)
  have src_text_n: "src_text = content n" by (simp add: src_text_def file_text_def n)
  have R_headers: "R = headers (lines_of src_text)"
    by (simp add: R_def file_records_def src_text_def length_records)
  have count: "length chunks = (if R = 0 then 1 else ceil_div R (nat k))" if k: "1 \<le> k"
  proof -
    have k0: "int 0 \<le> k" using k by simp
    have len: "length chunks = 1 + (R - 1) div nat k"
      using length_split_lines [OF k k0, of "lines_of src_text"] by (simp add: chunks_def R_headers)
    show ?thesis
    proof (cases "R = 0")
      case True
      then show ?thesis by (simp add: len)
    next
      case False
      have pos: "0 < nat k" using k by simp
      have "R + nat k - 1 = (R - 1) + nat k" using False by simp
      then have "ceil_div R (nat k) = ((R - 1) + nat k) div nat k"
        by (simp only: ceil_div_def)
      also have "\<dots> = 1 + (R - 1) div nat k"
        using pos by (simp add: div_add_self2)
      finally show ?thesis using False by (simp add: len)
    qed
  qed
  have "length chunks \<le> 1 + R"
    unfolding chunks_def R_headers by (rule length_split_lines_le)
  then have enough': "length chunks \<le> length (temp_names w)"
    using enough by (simp add: R_def)
  have chunks_ne: "chunks \<noteq> []" by (simp add: chunks_def split_lines_nonempty)
  then obtain a rest where tn: "temp_names w = a # rest"
    using enough' by (cases "temp_names w") auto
  have fresh: "\<forall>p \<in> set (temp_names w). fs w p = None"
    using names(2) by (simp add: exists_path_def)
  let ?w1 = "logger DEBUG ''Check file exists and is readable: %s'' [S src] w"
  let ?w2 = "?w1\<lparr>fs := (fs ?w1)(a \<mapsto> new_file), temp_names := rest\<rparr>"
  have chk: "file_exists_readable src False w = (Inr (), ?w1)"
    using src by (simp add: file_exists_readable_def Let_def logger_def)
  have rd: "open_read src ?w1 = (Inr src_text, ?w1)"
    using n by (simp add: open_read_def logger_def src_text_n)
  have mk: "unnamed_temp_file ?w1 = (Inr a, ?w2)"
    using tn fresh by (intro unnamed_temp_file_fresh) (simp_all add: logger_def)
  have op: "open_write a ?w2 = (Inr (), ?w2)"
    by (rule open_write_new_file) simp
  have start: "break_up_fasta_file src k w = chunk_loop k (lines_of src_text) a [a] 0 ?w2"
    by (simp add: break_up_fasta_file_def chk rd mk op)
  have p1: "fs ?w2 a = Some new_file" by simp
  have p2: "distinct (temp_names ?w2)" using names(1) tn by simp
  have p3: "\<forall>p \<in> set (temp_names ?w2). fs ?w2 p = None"
    using names(1) fresh tn by (auto simp: logger_def)
  have p4: "length (split_lines k 0 (lines_of src_text)) \<le> Suc (length (temp_names ?w2))"
    using enough' tn by (simp add: chunks_def)
  have "\<exists>w'. chunk_loop k (lines_of src_text) a [a] 0 ?w2 =
        (Inr ([a] @ take (length chunks - 1) rest), w')
    \<and> fs w' a = Some (new_file\<lparr>content := content new_file @ concat (hd chunks)\<rparr>)
    \<and> map (fs w') (take (length chunks - 1) rest)
        = map (\<lambda>ch. Some (new_file\<lparr>content := concat ch\<rparr>)) (tl chunks)
    \<and> (\<forall>p. p \<noteq> a \<and> p \<notin> set (take (length chunks - 1) rest) \<longrightarrow> fs w' p = fs ?w2 p)"
    using chunk_loop_writes [OF p1 p2 p3 p4, of "[a]"] unfolding chunks_def by simp
  then obtain w' where run: "chunk_loop k (lines_of src_text) a [a] 0 ?w2 =
        (Inr ([a] @ take (length chunks - 1) rest), w')"
    and first: "fs w' a = Some (new_file\<lparr>content := content new_file @ concat (hd chunks)\<rparr>)"
    and others: "map (fs w') (take (length chunks - 1) rest)
        = map (\<lambda>ch. Some (new_file\<lparr>content := concat ch\<rparr>)) (tl chunks)"
    and frame: "\<forall>p. p \<noteq> a \<and> p \<notin> set (take (length chunks - 1) rest) \<longrightarrow> fs w' p = fs ?w2 p"
    by (elim exE conjE)
  define files where "files = a # take (length chunks - 1) rest"
  have files_take: "files = take (length chunks) (temp_names w)"
    using chunks_ne by (cases chunks) (simp_all add: files_def tn)
  have files_len: "length files = length chunks"
    using enough' by (simp add: files_take)
  have all: "map (fs w') files = map (\<lambda>ch. Some (new_file\<lparr>content := concat ch\<rparr>)) chunks"
    using chunks_ne first others by (cases chunks) (simp_all add: files_def new_file_def)
  have texts: "map (file_text (fs w')) files = map concat chunks"
    by (rule map_fs_file_text [OF all])
  have cc: "concat chunks = lines_of src_text"
    by (simp add: chunks_def concat_split_lines)
  have proper: "\<forall>ch \<in> set chunks. proper_lines ch"
    using proper_lines_concat [of chunks] proper_lines_of [of src_text] by (simp add: cc)
  have recs: "map (file_records (fs w')) files = map records chunks"
  proof -
    have "map (file_records (fs w')) files = map (\<lambda>t. records (lines_of t)) (map (file_text (fs w')) files)"
      by (simp add: file_records_def)
    also have "\<dots> = map (\<lambda>ch. records (lines_of (concat ch))) chunks"
      by (simp add: texts)
    also have "\<dots> = map records chunks"
      using proper by (simp add: lines_of_concat)
    finally show ?thesis .
  qed
  have c1: "length files = (if R = 0 then 1 else ceil_div R (nat k))" if "1 \<le> k"
    using count [OF that] by (simp add: files_len)
  have c2: "files = take (length files) (temp_names w)"
    unfolding files_len by (rule files_take)
  have c3: "distinct files"
    using names(1) by (simp add: files_take)
  have src_not: "src \<notin> set (temp_names w)"
    using fresh n by auto
  then have c4: "src \<notin> set files"
    by (auto simp: files_take dest: in_set_takeD)
  have c5: "\<forall>p \<in> set files. isfile (fs w') p"
    using map_fs_isfile [OF all] by blast
  have c9: "\<forall>p \<in> set files. length (file_records (fs w') p) \<le> nat k" if k: "1 \<le> k"
  proof
    fix p assume p: "p \<in> set files"
    have k0: "int 0 \<le> k" using k by simp
    have bound: "\<forall>ch \<in> set chunks. headers ch \<le> nat k"
      using headers_split_lines_bound [OF k k0, of "lines_of src_text"] chunks_ne
      by (cases chunks) (auto simp: chunks_def)
    have "file_records (fs w') p \<in> set (map records chunks)"
      using p recs by (metis image_eqI list.set_map)
    then show "length (file_records (fs w') p) \<le> nat k"
      using bound by (auto simp: length_records)
  qed
  have c6: "concat (map (file_text (fs w')) files) = file_text (fs w) src"
  proof -
    have "concat (map (file_text (fs w')) files) = concat (map concat chunks)"
      by (simp only: texts)
    also have "\<dots> = concat (concat chunks)"
      by (induction chunks) simp_all
    also have "\<dots> = src_text"
      by (simp only: cc concat_lines_of)
    finally show ?thesis by (simp only: src_text_def)
  qed
  have c7: "concat (map (file_records (fs w')) files) = file_records (fs w) src"
    by (simp add: recs chunks_def records_split_lines file_records_def src_text_def)
  have "src \<noteq> a \<and> src \<notin> set (take (length chunks - 1) rest)"
    using c4 by (simp add: files_def)
  then have c8: "fs w' src = fs w src"
    using frame by (simp add: logger_def)
  have c0: "break_up_fasta_file src k w = (Inr files, w')"
    by (simp add: start run files_def)
  have c19: "1 \<le> k \<longrightarrow>
            length files = (if R = 0 then 1 else ceil_div R (nat k))
          \<and> (\<forall>p \<in> set files. length (file_records (fs w') p) \<le> nat k)"
    using c1 c9 by blast
  show ?thesis
    apply (rule exI [of _ files])
    apply (rule exI [of _ w'])
    using c0 c19 c2 c3 c4 c5 c6 c7 c8 unfolding R_def
    apply (intro conjI)
    apply assumption+
    done
qed

text \<open>A world with a sequence file of three records.\<close>

definition fasta_world :: world where
  "fasta_world =
     demo_world\<lparr>fs := (fs demo_world)
       (''seqs.fa'' \<mapsto> plain_file ''>a\<newline>AC\<newline>>b\<newline>GT\<newline>>c\<newline>TT''),
       temp_names := [''/tmp/tmpA'', ''/tmp/tmpB'', ''/tmp/tmpC'', ''/tmp/tmpD'']\<rparr>"

lemma fasta_world_records:
  "file_records (fs fasta_world) ''seqs.fa''
     = [[''>a\<newline>'', ''AC\<newline>''], [''>b\<newline>'', ''GT\<newline>''], [''>c\<newline>'', ''TT'']]"
  by (simp add: fasta_world_def file_records_def file_text_def plain_file_def records_def
      is_header_def)

theorem break_up_fasta_file_chunks_witness:
  "isfile (fs fasta_world) ''seqs.fa'' \<and> access_R (fs fasta_world) ''seqs.fa''
   \<and> length (file_records (fs fasta_world) ''seqs.fa'') = 3
   \<and> (\<exists>files w'. break_up_fasta_file ''seqs.fa'' 2 fasta_world = (Inr files, w')
         \<and> files = [''/tmp/tmpA'', ''/tmp/tmpB'']
         \<and> concat (map (file_text (fs w')) files) = ''>a\<newline>AC\<newline>>b\<newline>GT\<newline>>c\<newline>TT''
         \<and> concat (map (file_records (fs w')) files)
             = [[''>a\<newline>'', ''AC\<newline>''], [''>b\<newline>'', ''GT\<newline>''], [''>c\<newline>'', ''TT'']])"
proof -
  have h1: "isfile (fs fasta_world) ''seqs.fa''"
    by (simp add: fasta_world_def isfile_def plain_file_def)
  have h2: "access_R (fs fasta_world) ''seqs.fa''"
    by (simp add: fasta_world_def access_R_def plain_file_def)
  have names: "temp_names fasta_world = [''/tmp/tmpA'', ''/tmp/tmpB'', ''/tmp/tmpC'', ''/tmp/tmpD'']"
    by (simp add: fasta_world_def)
  have h4: "distinct (temp_names fasta_world)"
    by (simp add: names)
  have h5: "\<forall>p \<in> set (temp_names fasta_world). \<not> exists_path (fs fasta_world) p"
    by (simp add: names) (simp add: fasta_world_def demo_world_def exists_path_def)
  have three: "length (file_records (fs fasta_world) ''seqs.fa'') = 3"
    by (simp add: fasta_world_records)
  have h6: "length (file_records (fs fasta_world) ''seqs.fa'') < length (temp_names fasta_world)"
    by (simp add: three names)
  from break_up_fasta_file_chunks [OF h1 h2 h4 h5 h6, of 2]
  obtain files w' where run: "break_up_fasta_file ''seqs.fa'' 2 fasta_world = (Inr files, w')"
    and len: "(1::int) \<le> 2 \<longrightarrow>
            length files = (if length (file_records (fs fasta_world) ''seqs.fa'') = 0 then 1
                            else ceil_div (length (file_records (fs fasta_world) ''seqs.fa'')) (nat 2))
          \<and> (\<forall>p \<in> set files. length (file_records (fs w') p) \<le> nat 2)"
    and tk: "files = take (length files) (temp_names fasta_world)"
    and same_text: "concat (map (file_text (fs w')) files) = file_text (fs fasta_world) ''seqs.fa''"
    and recs: "concat (map (file_records (fs w')) files) = file_records (fs fasta_world) ''seqs.fa''"
    by blast
  have "length files = (if length (file_records (fs fasta_world) ''seqs.fa'') = 0 then 1
                            else ceil_div (length (file_records (fs fasta_world) ''seqs.fa'')) (nat 2))"
    using len by simp
  then have two: "length files = 2"
    unfolding three by (simp add: ceil_div_def)
  have files: "files = [''/tmp/tmpA'', ''/tmp/tmpB'']"
    using tk unfolding two names by simp
  have src: "file_text (fs fasta_world) ''seqs.fa'' = ''>a\<newline>AC\<newline>>b\<newline>GT\<newline>>c\<newline>TT''"
    by (simp add: fasta_world_def file_text_def plain_file_def)
  show ?thesis
    using h1 h2 three run files same_text recs unfolding src fasta_world_records by blast
qed

section \<open>The Parallel Dispatcher\<close>

text \<open>
  \<^verbatim>\<open>
  class MultiprocessingWorker(multiprocessing.Process):
      def __init__(self, work_queue, results_queue, function):
          super(MultiprocessingWorker, self).__init__()
          self.work_queue=work_queue
          self.results_queue=results_queue
          self.function=function
      def run(self):
          while True:
              try:
                  args = self.work_queue.get()
                  results = self.function(args)
                  self.results_queue.put(results)
              finally:
                  self.work_queue.task_done()

  def command_multiprocessing(threads, args, function=None, lock=None):
      if not function:
          function=execute_command_args_convert
      try:
          if threads>1:
              logger.debug("Create %s processes for function %s", threads, function)
              if lock:
                  work_queue = multiprocessing.JoinableQueue()
                  results_queue = multiprocessing.Queue()
                  # set up thread number of workers
                  for i in range(threads):
                      worker=MultiprocessingWorker(work_queue, results_queue, function)
                      worker.daemon=True
                      worker.start()
                  # add the arguments for each run to the queue
                  for arg in args:
                      work_queue.put(arg)
                  work_queue.join()
                  # collect the results
                  results=[]
                  for i in range(len(args)):
                      results.append(results_queue.get())
              else:
                  pool=multiprocessing.Pool(threads)
                  results=pool.map(function, args)
          else:
              results=[function(arg) for arg in args]
      except (EnvironmentError, ValueError, subprocess.CalledProcessError):
          logger.critical("TRACEBACK: \n" + traceback.format_exc())
          message=("Error in one of the processes. See the log file for additional" +
              " details including tracebacks.")
          logger.critical(message)
          sys.exit(message)
      return results
  \<close>
\<close>

subsection \<open>One process\<close>

text \<open>\<^verbatim>\<open>results=[function(arg) for arg in args]\<close>: the results are appended one by one.\<close>

fun collect :: "('a \<Rightarrow> 'r action) \<Rightarrow> 'a list \<Rightarrow> 'r list \<Rightarrow> 'r list action" where
  "collect function [] results w = (Inr results, w)"
| "collect function (arg # args) results w =
     (case function arg w of
        (Inl e, w') \<Rightarrow> (Inl e, w')
      | (Inr r, w') \<Rightarrow> collect function args (results @ [r]) w')"

definition list_comprehension :: "('a \<Rightarrow> 'r action) \<Rightarrow> 'a list \<Rightarrow> 'r list action" where
  "list_comprehension function args = collect function args []"

text \<open>
  The \<^verbatim>\<open>except\<close> clause: an exception of one of the three classes is logged with its
  trace and replaced by \<^verbatim>\<open>sys.exit(message)\<close>; any other exception is not caught.
\<close>

definition fatal_message :: string where
  "fatal_message =
     ''Error in one of the processes. See the log file for additional details including tracebacks.''"

definition on_error :: "pyexc \<Rightarrow> world \<Rightarrow> (pyexc + 'b) \<times> world" where
  "on_error e w =
     (if isinstance e [EnvironmentError, ValueError, CalledProcessError]
      then (Inl (PyExc SystemExit fatal_message),
            logger CRITICAL fatal_message []
              (logger CRITICAL (''TRACEBACK: \<newline>'' @ format_exc e) [] w))
      else (Inl e, w))"

fun guarded :: "(pyexc + 'b) \<times> world \<Rightarrow> (pyexc + 'b) \<times> world" where
  "guarded (Inl e, w) = on_error e w"
| "guarded (Inr x, w) = (Inr x, w)"

text \<open>The record logged when more than one process is asked for.\<close>

definition create_processes :: "int \<Rightarrow> world \<Rightarrow> world" where
  "create_processes threads w =
     logger DEBUG ''Create %s processes for function %s'' [I threads, Obj] w"

subsection \<open>The process pool\<close>

text \<open>
  \<^verbatim>\<open>multiprocessing.Pool(threads).map(function, args)\<close>, from the documentation of the
  library: the pool runs the calls in an order of its own, each call on the file system the
  calls before it have left; when every call has returned, \<^verbatim>\<open>map\<close> returns the results
  in the order of the arguments; when a call has raised, \<^verbatim>\<open>map\<close> raises the first
  exception that was reported, and some of the other calls may not have run.
\<close>

fun run_tasks ::
  "('a \<Rightarrow> 'r action) \<Rightarrow> 'a list \<Rightarrow> nat list \<Rightarrow> world \<Rightarrow> (nat \<times> (pyexc + 'r)) list \<times> world" where
  "run_tasks function args [] w = ([], w)"
| "run_tasks function args (i # order) w =
     (case function (args ! i) w of
        (outcome, w') \<Rightarrow>
          (case run_tasks function args order w' of
             (outcomes, w'') \<Rightarrow> ((i, outcome) # outcomes, w'')))"

fun first_failure :: "(nat \<times> (pyexc + 'r)) list \<Rightarrow> pyexc option" where
  "first_failure [] = None"
| "first_failure ((i, Inl e) # outcomes) = Some e"
| "first_failure ((i, Inr r) # outcomes) = first_failure outcomes"

fun result_at :: "(nat \<times> (pyexc + 'r)) list \<Rightarrow> nat \<Rightarrow> 'r option" where
  "result_at [] i = None"
| "result_at ((j, Inl e) # outcomes) i = result_at outcomes i"
| "result_at ((j, Inr r) # outcomes) i = (if i = j then Some r else result_at outcomes i)"

inductive pool_map ::
  "('a \<Rightarrow> 'r action) \<Rightarrow> 'a list \<Rightarrow> world \<Rightarrow> (pyexc + 'r list) \<times> world \<Rightarrow> bool" where
  all_done:
    "distinct order \<Longrightarrow> set order = {..<length args} \<Longrightarrow>
     run_tasks function args order w = (outcomes, w') \<Longrightarrow>
     first_failure outcomes = None \<Longrightarrow>
     map (result_at outcomes) [0..<length args] = map Some results \<Longrightarrow>
     pool_map function args w (Inr results, w')"
| failed:
    "distinct order \<Longrightarrow> set order \<subseteq> {..<length args} \<Longrightarrow>
     run_tasks function args order w = (outcomes, w') \<Longrightarrow>
     first_failure outcomes = Some e \<Longrightarrow>
     pool_map function args w (Inl e, w')"

subsection \<open>The persistent workers\<close>

text \<open>
  A worker process is blocked in \<^verbatim>\<open>work_queue.get()\<close>, or it is running
  \<^verbatim>\<open>function\<close> on the argument it took, or it has left \<^verbatim>\<open>run\<close> by an exception
  and is gone. The parent process is in its loop of \<^verbatim>\<open>put\<close>, with the arguments still to
  put; or in \<^verbatim>\<open>work_queue.join()\<close>; or in its loop of \<^verbatim>\<open>results_queue.get()\<close>, with
  the number of results still to get and the results it has; or it has left the \<^verbatim>\<open>try\<close>
  with its results.
\<close>

datatype 'a worker = Idle | Busy 'a | Dead

datatype ('a, 'r) parent = Putting "'a list" | Joining | Collecting nat "'r list" | Returned "'r list"

text \<open>
  The processes and the two queues. \<open>unfinished_tasks\<close> is the counter of the
  \<^verbatim>\<open>JoinableQueue\<close>: \<^verbatim>\<open>put\<close> adds one, \<^verbatim>\<open>task_done\<close> takes one away, and
  \<^verbatim>\<open>join\<close> waits until it is zero.
\<close>

record ('a, 'r) pool_state =
  parent :: "('a, 'r) parent"
  workers :: "'a worker list"
  work_queue :: "'a list"
  unfinished_tasks :: nat
  results_queue :: "'r list"
  shared :: world

text \<open>
  One step of one process. A worker that finishes a call puts the result and calls
  \<^verbatim>\<open>task_done\<close>; when the call raises, the \<^verbatim>\<open>finally\<close> clause calls
  \<^verbatim>\<open>task_done\<close> and the exception ends the worker: nothing is put on the results queue,
  and nothing is sent to the parent.
\<close>

inductive step ::
  "('a \<Rightarrow> 'r action) \<Rightarrow> 'a list \<Rightarrow> ('a, 'r) pool_state \<Rightarrow> ('a, 'r) pool_state \<Rightarrow> bool"
  for "function" :: "'a \<Rightarrow> 'r action" and args :: "'a list" where
  put:
    "parent s = Putting (arg # rest) \<Longrightarrow>
     step function args s
       (s\<lparr>parent := Putting rest, work_queue := work_queue s @ [arg],
          unfinished_tasks := Suc (unfinished_tasks s)\<rparr>)"
| all_put:
    "parent s = Putting [] \<Longrightarrow> step function args s (s\<lparr>parent := Joining\<rparr>)"
| join:
    "parent s = Joining \<Longrightarrow> unfinished_tasks s = 0 \<Longrightarrow>
     step function args s (s\<lparr>parent := Collecting (length args) []\<rparr>)"
| get_result:
    "parent s = Collecting (Suc k) results \<Longrightarrow> results_queue s = r # queue \<Longrightarrow>
     step function args s (s\<lparr>parent := Collecting k (results @ [r]), results_queue := queue\<rparr>)"
| return:
    "parent s = Collecting 0 results \<Longrightarrow> step function args s (s\<lparr>parent := Returned results\<rparr>)"
| take:
    "i < length (workers s) \<Longrightarrow> workers s ! i = Idle \<Longrightarrow> work_queue s = arg # queue \<Longrightarrow>
     step function args s (s\<lparr>workers := (workers s)[i := Busy arg], work_queue := queue\<rparr>)"
| finish:
    "i < length (workers s) \<Longrightarrow> workers s ! i = Busy arg \<Longrightarrow>
     function arg (shared s) = (Inr r, w') \<Longrightarrow>
     step function args s
       (s\<lparr>workers := (workers s)[i := Idle], results_queue := results_queue s @ [r],
          unfinished_tasks := unfinished_tasks s - 1, shared := w'\<rparr>)"
| die:
    "i < length (workers s) \<Longrightarrow> workers s ! i = Busy arg \<Longrightarrow>
     function arg (shared s) = (Inl e, w') \<Longrightarrow>
     step function args s
       (s\<lparr>workers := (workers s)[i := Dead],
          unfinished_tasks := unfinished_tasks s - 1, shared := w'\<rparr>)"

text \<open>The state once the workers are started: all of them wait for work.\<close>

definition start :: "int \<Rightarrow> 'a list \<Rightarrow> world \<Rightarrow> ('a, 'r) pool_state" where
  "start threads args w =
     \<lparr>parent = Putting args, workers = replicate (nat threads) Idle, work_queue = [],
      unfinished_tasks = 0, results_queue = [], shared = w\<rparr>"

subsection \<open>The dispatcher\<close>

text \<open>
  \<open>command_multiprocessing threads args function lock w out\<close>: the call can end with the
  outcome \<open>out\<close>, a list of results or an exception, and the world it leaves. With the
  persistent workers the call ends when the parent has collected its results; a run in which
  the parent stays blocked has no outcome. When the caller gives no function, \<open>function\<close>
  is \<open>execute_command_args_convert\<close>.
\<close>

inductive command_multiprocessing ::
  "int \<Rightarrow> 'a list \<Rightarrow> ('a \<Rightarrow> 'r action) \<Rightarrow> bool \<Rightarrow> world \<Rightarrow> (pyexc + 'r list) \<times> world \<Rightarrow> bool" where
  sequential:
    "\<not> 1 < threads \<Longrightarrow>
     command_multiprocessing threads args function lock w
       (guarded (list_comprehension function args w))"
| pool:
    "1 < threads \<Longrightarrow> \<not> lock \<Longrightarrow>
     pool_map function args (create_processes threads w) out \<Longrightarrow>
     command_multiprocessing threads args function lock w (guarded out)"
| persistent:
    "1 < threads \<Longrightarrow> lock \<Longrightarrow>
     rtranclp (step function args) (start threads args (create_processes threads w)) s \<Longrightarrow>
     parent s = Returned results \<Longrightarrow>
     command_multiprocessing threads args function lock w (Inr results, shared s)"

subsection \<open>The sequential map\<close>

text \<open>
  Calling the function on each element in order and collecting the results in the same
  order: the call on an element runs in the world the calls before it have left, and the
  first exception ends the map.
\<close>

fun sequential_map :: "('a \<Rightarrow> 'r action) \<Rightarrow> 'a list \<Rightarrow> 'r list action" where
  "sequential_map function [] w = (Inr [], w)"
| "sequential_map function (arg # args) w =
     (case function arg w of
        (Inl e, w') \<Rightarrow> (Inl e, w')
      | (Inr r, w') \<Rightarrow>
          (case sequential_map function args w' of
             (Inl e, w'') \<Rightarrow> (Inl e, w'')
           | (Inr rs, w'') \<Rightarrow> (Inr (r # rs), w'')))"

lemma collect_sequential_map:
  "collect function args results w =
     (case sequential_map function args w of
        (Inl e, w') \<Rightarrow> (Inl e, w')
      | (Inr rs, w') \<Rightarrow> (Inr (results @ rs), w'))"
  by (induction args arbitrary: results w) (auto split: prod.splits sum.splits)

lemma list_comprehension_sequential_map:
  "list_comprehension function args w = sequential_map function args w"
  by (simp add: list_comprehension_def collect_sequential_map split: prod.splits sum.splits)

lemma guarded_returns_iff: "guarded out = (Inr rs, w') \<longleftrightarrow> out = (Inr rs, w')"
  by (cases out rule: guarded.cases) (auto simp: on_error_def)

lemma sequential_map_pure:
  "sequential_map (\<lambda>a. returns (g a)) args w = (Inr (map g args), w)"
  by (induction args) (simp_all add: returns_def)

text \<open>
  Claim C6. With \<open>threads\<close> at most one, whatever the list of arguments, the function
  and \<open>lock\<close> are, the dispatcher has one outcome, that of the sequential map of the
  function over the list under the \<^verbatim>\<open>except\<close> clause: it returns a list of results
  exactly when the sequential map returns that list, with the same effects, the results being
  in the order of the arguments; for a function that only computes a value the result is the
  map of that function over the list.
\<close>

theorem sequential_dispatch:
  assumes "threads \<le> 1"
  shows "(command_multiprocessing threads args (function :: 'a \<Rightarrow> 'r action) lock w out
            \<longleftrightarrow> out = guarded (sequential_map function args w))
       \<and> (command_multiprocessing threads args function lock w (Inr results, w')
            \<longleftrightarrow> sequential_map function args w = (Inr results, w'))
       \<and> command_multiprocessing threads args (\<lambda>a. returns ((g :: 'a \<Rightarrow> 'r) a)) lock w
            (Inr (map g args), w)"
proof -
  have seq: "\<not> 1 < threads" using assms by simp
  have a: "command_multiprocessing threads args f lock w out
            \<longleftrightarrow> out = guarded (sequential_map f args w)" for f :: "'a \<Rightarrow> 'r action" and out
  proof
    assume "command_multiprocessing threads args f lock w out"
    then show "out = guarded (sequential_map f args w)"
      using seq by cases (simp_all add: list_comprehension_sequential_map)
  next
    assume "out = guarded (sequential_map f args w)"
    then show "command_multiprocessing threads args f lock w out"
      using sequential [OF seq, of args f lock w]
      by (simp add: list_comprehension_sequential_map)
  qed
  have b: "command_multiprocessing threads args function lock w (Inr results, w')
            \<longleftrightarrow> sequential_map function args w = (Inr results, w')"
  proof -
    have "command_multiprocessing threads args function lock w (Inr results, w')
            \<longleftrightarrow> guarded (sequential_map function args w) = (Inr results, w')"
      using a [of "function" "(Inr results, w')"] by auto
    then show ?thesis by (simp only: guarded_returns_iff)
  qed
  have c: "command_multiprocessing threads args (\<lambda>a. returns (g a)) lock w (Inr (map g args), w)"
    using a [of "\<lambda>a. returns (g a)" "(Inr (map g args), w)"]
    by (simp add: sequential_map_pure)
  show ?thesis
    using a [of "function" out] b c by simp
qed


theorem sequential_dispatch_witness:
  "(1::int) \<le> 1
   \<and> sequential_map (\<lambda>p w. (Inr (length (printed w)), py_print p w)) [''a'', ''b''] demo_world
       = (Inr [0, 1], demo_world\<lparr>printed := [''a'', ''b'']\<rparr>)
   \<and> command_multiprocessing 1 [''a'', ''b''] (\<lambda>p w. (Inr (length (printed w)), py_print p w))
        False demo_world (Inr [0, 1], demo_world\<lparr>printed := [''a'', ''b'']\<rparr>)
   \<and> command_multiprocessing 1 [''a'', ''b''] (\<lambda>p. returns (length p)) True demo_world
        (Inr [1, 1], demo_world)"
proof -
  have h: "(1::int) \<le> 1" by simp
  have run: "sequential_map (\<lambda>p w. (Inr (length (printed w)), py_print p w)) [''a'', ''b''] demo_world
       = (Inr [0, 1], demo_world\<lparr>printed := [''a'', ''b'']\<rparr>)"
    by (simp add: py_print_def demo_world_def)
  have first: "command_multiprocessing 1 [''a'', ''b'']
        (\<lambda>p w. (Inr (length (printed w)), py_print p w)) False demo_world
        (Inr [0, 1], demo_world\<lparr>printed := [''a'', ''b'']\<rparr>)"
    by (rule iffD2 [OF sequential_dispatch [OF h, THEN conjunct2, THEN conjunct1] run])
  have "command_multiprocessing 1 [''a'', ''b''] (\<lambda>p. returns (length p)) True demo_world
        (Inr (map length [''a'', ''b'']), demo_world)"
    by (rule sequential_dispatch [OF h, THEN conjunct2, THEN conjunct2])
  then have second: "command_multiprocessing 1 [''a'', ''b''] (\<lambda>p. returns (length p)) True
        demo_world (Inr [1, 1], demo_world)"
    by simp
  show ?thesis using h run first second by simp
qed

section \<open>Invariants of the persistent workers\<close>

text \<open>
  The arguments the workers are running, the arguments the parent still has to put, and the
  results the parent has collected.
\<close>

fun in_flight :: "'a worker \<Rightarrow> 'a multiset" where
  "in_flight Idle = {#}"
| "in_flight (Busy a) = {#a#}"
| "in_flight Dead = {#}"

fun busy :: "'a worker list \<Rightarrow> 'a multiset" where
  "busy [] = {#}"
| "busy (p # ps) = in_flight p + busy ps"

fun to_put :: "('a, 'r) parent \<Rightarrow> 'a list" where
  "to_put (Putting rest) = rest"
| "to_put Joining = []"
| "to_put (Collecting k results) = []"
| "to_put (Returned results) = []"

fun collected :: "('a, 'r) parent \<Rightarrow> 'r list" where
  "collected (Putting rest) = []"
| "collected Joining = []"
| "collected (Collecting k results) = results"
| "collected (Returned results) = results"

lemma busy_update:
  "i < length ps \<Longrightarrow> busy (ps[i := p]) + in_flight (ps ! i) = busy ps + in_flight p"
proof (induction ps arbitrary: i)
  case Nil
  then show ?case by simp
next
  case (Cons q ps)
  show ?case
  proof (cases i)
    case 0
    then show ?thesis by simp
  next
    case (Suc j)
    then have "j < length ps" using Cons.prems by simp
    from Cons.IH [OF this] show ?thesis by (simp add: Suc ac_simps)
  qed
qed

lemma busy_take:
  "i < length ps \<Longrightarrow> ps ! i = Idle \<Longrightarrow> busy (ps[i := Busy a]) = add_mset a (busy ps)"
  using busy_update [of i ps "Busy a"] by simp

lemma busy_done:
  "i < length ps \<Longrightarrow> ps ! i = Busy a \<Longrightarrow> in_flight p = {#} \<Longrightarrow>
   add_mset a (busy (ps[i := p])) = busy ps"
  using busy_update [of i ps p] by simp

lemma busy_replicate_Idle: "busy (replicate n Idle) = {#}"
  by (induction n) simp_all

lemma busy_nonempty:
  "busy ps \<noteq> {#} \<Longrightarrow> \<exists>i < length ps. \<exists>a. ps ! i = Busy a"
proof (induction ps)
  case Nil
  then show ?case by simp
next
  case (Cons p ps)
  show ?case
  proof (cases p)
    case (Busy a)
    then have "0 < length (p # ps) \<and> (p # ps) ! 0 = Busy a" by simp
    then show ?thesis by blast
  next
    case Idle
    then have "busy ps \<noteq> {#}" using Cons.prems by simp
    from Cons.IH [OF this] obtain i a where "i < length ps" "ps ! i = Busy a" by blast
    then have "Suc i < length (p # ps) \<and> (p # ps) ! Suc i = Busy a" by simp
    then show ?thesis by blast
  next
    case Dead
    then have "busy ps \<noteq> {#}" using Cons.prems by simp
    from Cons.IH [OF this] obtain i a where "i < length ps" "ps ! i = Busy a" by blast
    then have "Suc i < length (p # ps) \<and> (p # ps) ! Suc i = Busy a" by simp
    then show ?thesis by blast
  qed
qed

text \<open>
  The counter of the work queue counts the arguments that were put and whose
  \<^verbatim>\<open>task_done\<close> has not been called: those in the queue and those being run.
\<close>

definition counted :: "('a, 'r) pool_state \<Rightarrow> bool" where
  "counted s = (unfinished_tasks s = size (busy (workers s)) + length (work_queue s))"

text \<open>
  Once the parent is past \<^verbatim>\<open>join\<close> the counter is zero, and the results it has and
  those it still waits for are as many as the arguments.
\<close>

definition phased :: "nat \<Rightarrow> ('a, 'r) pool_state \<Rightarrow> bool" where
  "phased n s =
     (case parent s of
        Putting rest \<Rightarrow> True
      | Joining \<Rightarrow> True
      | Collecting k results \<Rightarrow> k + length results = n \<and> unfinished_tasks s = 0
      | Returned results \<Rightarrow> length results = n \<and> unfinished_tasks s = 0)"

lemma counted_start: "counted (start threads args w)"
  by (simp add: counted_def start_def busy_replicate_Idle)

lemma counted_step:
  assumes "step f args s s'" "counted s"
  shows "counted s'"
  using assms
proof (cases rule: step.cases)
  case (take i arg queue)
  then show ?thesis using assms(2) by (simp add: counted_def busy_take)
next
  case (finish i arg r w')
  have "add_mset arg (busy ((workers s)[i := Idle])) = busy (workers s)"
    using finish by (intro busy_done) simp_all
  then have "size (busy (workers s)) = Suc (size (busy ((workers s)[i := Idle])))"
    by (metis size_add_mset)
  then show ?thesis using finish assms(2) by (simp add: counted_def)
next
  case (die i arg e w')
  have "add_mset arg (busy ((workers s)[i := Dead])) = busy (workers s)"
    using die by (intro busy_done) simp_all
  then have "size (busy (workers s)) = Suc (size (busy ((workers s)[i := Dead])))"
    by (metis size_add_mset)
  then show ?thesis using die assms(2) by (simp add: counted_def)
qed (use assms(2) in \<open>simp_all add: counted_def\<close>)

lemma phased_start: "phased n (start threads args w)"
  by (simp add: phased_def start_def)

lemma phased_step:
  assumes "step f args s s'" "phased (length args) s"
  shows "phased (length args) s'"
  using assms by (cases rule: step.cases) (auto simp: phased_def split: parent.splits)

lemma workers_step:
  "step f args s s' \<Longrightarrow> length (workers s') = length (workers s)"
  by (cases rule: step.cases) auto


text \<open>
  Every argument is in one place: returned by a call that ran in some world, lost with the
  worker that raised on it, being run, in the work queue, or not put yet. The results of the
  calls that returned are those in the results queue and those the parent has collected.
\<close>

definition ledger :: "('a \<Rightarrow> 'r action) \<Rightarrow> 'a list \<Rightarrow> ('a, 'r) pool_state \<Rightarrow> bool" where
  "ledger f args s =
     (\<exists>calls failed.
        (\<forall>c \<in> set calls. fst (f (fst c) (fst (snd c))) = Inr (snd (snd c)))
      \<and> (\<forall>a \<in> set failed. \<exists>s0 e. fst (f a s0) = Inl e)
      \<and> mset (map fst calls) + mset failed + busy (workers s) + mset (work_queue s)
          + mset (to_put (parent s)) = mset args
      \<and> mset (map (\<lambda>c. snd (snd c)) calls) = mset (results_queue s) + mset (collected (parent s))
      \<and> (Dead \<in> set (workers s) \<longrightarrow> failed \<noteq> []))"

lemma ledger_start: "ledger f args (start threads args w)"
  unfolding ledger_def
  by (rule exI [of _ "[]"], rule exI [of _ "[]"]) (simp add: start_def busy_replicate_Idle)

lemma Dead_update:
  "Dead \<in> set (ps[i := p]) \<Longrightarrow> p \<noteq> Dead \<Longrightarrow> Dead \<in> set ps"
  using set_update_subset_insert [of ps i p] by auto

lemma ledger_step:
  assumes st: "step f args s s'" and led: "ledger f args s"
  shows "ledger f args s'"
proof -
  from led obtain calls failed where
    ok: "\<forall>c \<in> set calls. fst (f (fst c) (fst (snd c))) = Inr (snd (snd c))"
    and bad: "\<forall>a \<in> set failed. \<exists>s0 e. fst (f a s0) = Inl e"
    and args: "mset (map fst calls) + mset failed + busy (workers s) + mset (work_queue s)
          + mset (to_put (parent s)) = mset args"
    and res: "mset (map (\<lambda>c. snd (snd c)) calls)
          = mset (results_queue s) + mset (collected (parent s))"
    and dead: "Dead \<in> set (workers s) \<longrightarrow> failed \<noteq> []"
    unfolding ledger_def by blast
  from st show ?thesis
  proof (cases rule: step.cases)
    case (put arg rest)
    show ?thesis
      unfolding ledger_def
      by (rule exI [of _ calls], rule exI [of _ failed])
        (use ok bad args res dead put in \<open>simp add: ac_simps\<close>)
  next
    case all_put
    show ?thesis
      unfolding ledger_def
      by (rule exI [of _ calls], rule exI [of _ failed])
        (use ok bad args res dead all_put in simp)
  next
    case join
    show ?thesis
      unfolding ledger_def
      by (rule exI [of _ calls], rule exI [of _ failed])
        (use ok bad args res dead join in simp)
  next
    case (get_result k results r queue)
    show ?thesis
      unfolding ledger_def
      by (rule exI [of _ calls], rule exI [of _ failed])
        (use ok bad args res dead get_result in simp)
  next
    case (return results)
    show ?thesis
      unfolding ledger_def
      by (rule exI [of _ calls], rule exI [of _ failed])
        (use ok bad args res dead return in simp)
  next
    case (take i arg queue)
    have b: "busy ((workers s)[i := Busy arg]) = add_mset arg (busy (workers s))"
      using take by (simp add: busy_take)
    have d: "Dead \<in> set (workers s') \<longrightarrow> failed \<noteq> []"
      using dead take Dead_update [of "workers s" i "Busy arg"] by auto
    have a: "mset (map fst calls) + mset failed + busy (workers s') + mset (work_queue s')
          + mset (to_put (parent s')) = mset args"
      using args take by (simp add: b)
    have r: "mset (map (\<lambda>c. snd (snd c)) calls)
          = mset (results_queue s') + mset (collected (parent s'))"
      using res take by simp
    show ?thesis
      unfolding ledger_def
      by (rule exI [of _ calls], rule exI [of _ failed]) (use ok bad a r d in blast)
  next
    case (finish i arg r w')
    let ?calls = "(arg, shared s, r) # calls"
    have b: "add_mset arg (busy ((workers s)[i := Idle])) = busy (workers s)"
      using finish by (simp add: busy_done)
    have d: "Dead \<in> set (workers s') \<longrightarrow> failed \<noteq> []"
      using dead finish Dead_update [of "workers s" i Idle] by auto
    have a: "mset (map fst ?calls) + mset failed + busy (workers s') + mset (work_queue s')
          + mset (to_put (parent s')) = mset args"
      using args finish by (simp add: b [symmetric])
    have rr: "mset (map (\<lambda>c. snd (snd c)) ?calls)
          = mset (results_queue s') + mset (collected (parent s'))"
      using res finish by simp
    have o: "\<forall>c \<in> set ?calls. fst (f (fst c) (fst (snd c))) = Inr (snd (snd c))"
      using ok finish by simp
    show ?thesis
      unfolding ledger_def
      by (rule exI [of _ ?calls], rule exI [of _ failed]) (use o bad a rr d in blast)
  next
    case (die i arg e w')
    let ?failed = "arg # failed"
    have b: "add_mset arg (busy ((workers s)[i := Dead])) = busy (workers s)"
      using die by (simp add: busy_done)
    have a: "mset (map fst calls) + mset ?failed + busy (workers s') + mset (work_queue s')
          + mset (to_put (parent s')) = mset args"
      using args die by (simp add: b [symmetric])
    have rr: "mset (map (\<lambda>c. snd (snd c)) calls)
          = mset (results_queue s') + mset (collected (parent s'))"
      using res die by simp
    have "\<exists>s0 e. fst (f arg s0) = Inl e"
      using die by (metis fst_conv)
    then have bd: "\<forall>a \<in> set ?failed. \<exists>s0 e. fst (f a s0) = Inl e"
      using bad by simp
    have d: "Dead \<in> set (workers s') \<longrightarrow> ?failed \<noteq> []" by simp
    show ?thesis
      unfolding ledger_def
      by (rule exI [of _ calls], rule exI [of _ ?failed]) (use ok bd a rr d in blast)
  qed
qed

definition invariant :: "('a \<Rightarrow> 'r action) \<Rightarrow> 'a list \<Rightarrow> nat \<Rightarrow> ('a, 'r) pool_state \<Rightarrow> bool" where
  "invariant f args n s =
     (counted s \<and> phased (length args) s \<and> ledger f args s \<and> length (workers s) = n)"

lemma invariant_reachable:
  assumes "rtranclp (step f args) (start threads args w) s"
  shows "invariant f args (nat threads) s"
  using assms
proof (induction rule: rtranclp_induct)
  case base
  show ?case
    by (simp add: invariant_def counted_start phased_start ledger_start) (simp add: start_def)
next
  case (step s s')
  then show ?case
    by (simp add: invariant_def counted_step phased_step ledger_step workers_step)
qed


lemma returned_ledger:
  assumes inv: "invariant f args n s" and ret: "parent s = Returned results"
  shows "length results = length args
     \<and> (\<exists>calls. (\<forall>c \<in> set calls. fst (f (fst c) (fst (snd c))) = Inr (snd (snd c)))
          \<and> mset (map fst calls) = mset args
          \<and> mset (map (\<lambda>c. snd (snd c)) calls) = mset results)"
proof -
  have len: "length results = length args" and zero: "unfinished_tasks s = 0"
    using inv ret by (simp_all add: invariant_def phased_def)
  have "size (busy (workers s)) + length (work_queue s) = 0"
    using inv zero by (simp add: invariant_def counted_def)
  then have idle: "busy (workers s) = {#}" "work_queue s = []" by simp_all
  obtain calls failed where
    ok: "\<forall>c \<in> set calls. fst (f (fst c) (fst (snd c))) = Inr (snd (snd c))"
    and args: "mset (map fst calls) + mset failed + busy (workers s) + mset (work_queue s)
          + mset (to_put (parent s)) = mset args"
    and res: "mset (map (\<lambda>c. snd (snd c)) calls)
          = mset (results_queue s) + mset (collected (parent s))"
    using inv unfolding invariant_def ledger_def by blast
  have args': "mset (map fst calls) + mset failed = mset args"
    using args by (simp add: idle ret)
  have res': "mset (map (\<lambda>c. snd (snd c)) calls) = mset (results_queue s) + mset results"
    using res by (simp add: ret)
  have "length calls + length failed = length args"
    using arg_cong [OF args', of size] by simp
  moreover have "length calls = length (results_queue s) + length results"
    using arg_cong [OF res', of size] by simp
  ultimately have "failed = []" "results_queue s = []"
    using len by simp_all
  then have "mset (map fst calls) = mset args"
    and "mset (map (\<lambda>c. snd (snd c)) calls) = mset results"
    using args' res' by simp_all
  then show ?thesis using len ok by blast
qed

lemma never_returns:
  assumes reach: "rtranclp (step f args) (start threads args w) s"
    and a: "a \<in> set args" and fails: "\<And>s0. \<exists>e. fst (f a s0) = Inl e"
  shows "parent s \<noteq> Returned results"
proof
  assume ret: "parent s = Returned results"
  from returned_ledger [OF invariant_reachable [OF reach] ret]
  obtain calls where ok: "\<forall>c \<in> set calls. fst (f (fst c) (fst (snd c))) = Inr (snd (snd c))"
    and all: "mset (map fst calls) = mset args"
    by blast
  have "a \<in> set (map fst calls)"
    using a all by (metis set_mset_mset)
  then obtain c where c: "c \<in> set calls" "fst c = a" by auto
  then have "fst (f a (fst (snd c))) = Inr (snd (snd c))" using ok by auto
  then show False using fails [of "fst (snd c)"] by auto
qed

lemma no_outcome:
  assumes "1 < threads" and "a \<in> set args" and "\<And>s0. \<exists>e. fst (f a s0) = Inl e"
  shows "\<not> (\<exists>out. command_multiprocessing threads args f True w out)"
proof
  assume "\<exists>out. command_multiprocessing threads args f True w out"
  then obtain out where "command_multiprocessing threads args f True w out" ..
  then show False
  proof (cases rule: command_multiprocessing.cases)
    case sequential
    then show False using assms(1) by simp
  next
    case (pool out')
    then show False by simp
  next
    case (persistent s results)
    then show False using never_returns [OF persistent(4) assms(2,3)] by simp
  qed
qed

lemma blocked_collecting:
  assumes inv: "invariant f args n s"
    and par: "parent s = Collecting (Suc k) results" and empty: "results_queue s = []"
  shows "\<not> (\<exists>s'. step f args s s')"
proof
  assume "\<exists>s'. step f args s s'"
  then obtain s' where st: "step f args s s'" ..
  have zero: "unfinished_tasks s = 0"
    using inv par by (simp add: invariant_def phased_def)
  have "size (busy (workers s)) + length (work_queue s) = 0"
    using inv zero by (simp add: invariant_def counted_def)
  then have idle: "busy (workers s) = {#}" "work_queue s = []" by simp_all
  from st show False
  proof (cases rule: step.cases)
    case (finish i arg r w')
    then have "add_mset arg (busy ((workers s)[i := Idle])) = busy (workers s)"
      by (simp add: busy_done)
    then show False using idle by simp
  next
    case (die i arg e w')
    then have "add_mset arg (busy ((workers s)[i := Dead])) = busy (workers s)"
      by (simp add: busy_done)
    then show False using idle by simp
  qed (use par empty idle in simp_all)
qed

lemma lone_failure_blocks:
  fixes a :: 'a and e :: pyexc and w :: world
  defines "f \<equiv> (\<lambda>x :: 'a. raise e :: 'r action)"
  shows "\<exists>s. rtranclp (step f [a]) (start 2 [a] w) s
           \<and> parent s = Collecting 1 [] \<and> results_queue s = [] \<and> workers s = [Dead, Idle]
           \<and> \<not> (\<exists>s'. step f [a] s s')"
proof -
  let ?s0 = "start 2 [a] w :: ('a, 'r) pool_state"
  let ?s1 = "?s0\<lparr>parent := Putting [], work_queue := [a], unfinished_tasks := 1\<rparr>"
  let ?s2 = "?s1\<lparr>parent := Joining\<rparr>"
  let ?s3 = "?s2\<lparr>workers := [Busy a, Idle], work_queue := []\<rparr>"
  let ?s4 = "?s3\<lparr>workers := [Dead, Idle], unfinished_tasks := 0, shared := w\<rparr>"
  let ?s5 = "?s4\<lparr>parent := Collecting 1 []\<rparr>"
  have 1: "step f [a] ?s0 ?s1"
    using step.put [of ?s0 a "[]" f "[a]"] by (simp add: start_def)
  have 2: "step f [a] ?s1 ?s2"
    using step.all_put [of ?s1 f "[a]"] by simp
  have 3: "step f [a] ?s2 ?s3"
    using step.take [of 0 ?s2 a "[]" f "[a]"] by (simp add: start_def numeral_2_eq_2)
  have 4: "step f [a] ?s3 ?s4"
    using step.die [of 0 ?s3 a f e w "[a]"] by (simp add: start_def f_def raise_def numeral_2_eq_2)
  have 5: "step f [a] ?s4 ?s5"
    using step.join [of ?s4 f "[a]"] by simp
  have reach: "rtranclp (step f [a]) ?s0 ?s5"
    using 1 2 3 4 5 by (meson rtranclp.rtrancl_into_rtrancl rtranclp.rtrancl_refl)
  have "\<not> (\<exists>s'. step f [a] ?s5 s')"
    by (rule blocked_collecting [OF invariant_reachable [OF reach]]) (simp_all add: start_def)
  then show ?thesis using reach by (intro exI [of _ ?s5]) (simp add: start_def)
qed


text \<open>A measure that every step makes smaller: no run goes on for ever.\<close>

fun rank :: "('a, 'r) parent \<Rightarrow> nat" where
  "rank (Putting rest) = 3"
| "rank Joining = 2"
| "rank (Collecting k results) = 1"
| "rank (Returned results) = 0"

definition potential :: "('a, 'r) pool_state \<Rightarrow> nat" where
  "potential s =
     5 * length (to_put (parent s)) + 4 * length (work_queue s) + 3 * size (busy (workers s))
     + 2 * length (results_queue s) + rank (parent s)"

lemma potential_step:
  assumes "step f args s s'"
  shows "potential s' < potential s"
  using assms
proof (cases rule: step.cases)
  case (take i arg queue)
  then show ?thesis by (simp add: potential_def busy_take)
next
  case (finish i arg r w')
  have "add_mset arg (busy ((workers s)[i := Idle])) = busy (workers s)"
    using finish by (simp add: busy_done)
  then have "size (busy (workers s)) = Suc (size (busy ((workers s)[i := Idle])))"
    by (metis size_add_mset)
  then show ?thesis using finish by (simp add: potential_def)
next
  case (die i arg e w')
  have "add_mset arg (busy ((workers s)[i := Dead])) = busy (workers s)"
    using die by (simp add: busy_done)
  then have "size (busy (workers s)) = Suc (size (busy ((workers s)[i := Dead])))"
    by (metis size_add_mset)
  then show ?thesis using die by (simp add: potential_def)
qed (simp_all add: potential_def)

lemma busy_empty_no_Busy: "busy ps = {#} \<Longrightarrow> Busy a \<notin> set ps"
  by (induction ps) auto

subsection \<open>The history of a run\<close>

text \<open>
  The invocations that have ended, in the order in which they ended, called one after the other:
  each call runs in the world the call before it has left. \<open>replay\<close> gives the outcome of
  every call, a result or an exception, and the world after the last one; \<open>returned\<close> keeps
  the results, \<open>raised\<close> counts the exceptions and \<open>dead\<close> counts the workers that have
  stopped.
\<close>

fun replay :: "('a \<Rightarrow> 'r action) \<Rightarrow> 'a list \<Rightarrow> world \<Rightarrow> (pyexc + 'r) list \<times> world" where
  "replay f [] w = ([], w)"
| "replay f (a # rest) w =
     (case f a w of
        (out, w') \<Rightarrow> (case replay f rest w' of (outs, w'') \<Rightarrow> (out # outs, w'')))"

fun returned :: "(pyexc + 'r) list \<Rightarrow> 'r list" where
  "returned [] = []"
| "returned (Inl e # outs) = returned outs"
| "returned (Inr r # outs) = r # returned outs"

fun raised :: "(pyexc + 'r) list \<Rightarrow> nat" where
  "raised [] = 0"
| "raised (Inl e # outs) = Suc (raised outs)"
| "raised (Inr r # outs) = raised outs"

fun dead :: "'a worker list \<Rightarrow> nat" where
  "dead [] = 0"
| "dead (Dead # ps) = Suc (dead ps)"
| "dead (Idle # ps) = dead ps"
| "dead (Busy a # ps) = dead ps"

lemma replay_snoc:
  "replay f (xs @ [a]) w =
     (case replay f xs w of
        (outs, w1) \<Rightarrow> (case f a w1 of (out, w2) \<Rightarrow> (outs @ [out], w2)))"
  by (induction xs arbitrary: w) (auto split: prod.splits)

lemma returned_append: "returned (xs @ ys) = returned xs @ returned ys"
  by (induction xs rule: returned.induct) simp_all

lemma raised_append: "raised (xs @ ys) = raised xs + raised ys"
  by (induction xs rule: raised.induct) simp_all

lemma length_replay: "length (fst (replay f xs w)) = length xs"
proof (induction xs arbitrary: w)
  case Nil
  show ?case by simp
next
  case (Cons a xs)
  obtain out w1 where a: "f a w = (out, w1)" by (cases "f a w")
  obtain outs w2 where rest: "replay f xs w1 = (outs, w2)" by (cases "replay f xs w1")
  have "length outs = length xs" using Cons [of w1] by (simp add: rest)
  then show ?case by (simp add: a rest)
qed

lemma length_returned: "length (returned outs) + raised outs = length outs"
  by (induction outs rule: returned.induct) simp_all

lemma raised_none: "raised outs = 0 \<Longrightarrow> outs = map Inr (returned outs)"
  by (induction outs rule: returned.induct) simp_all

lemma replay_all_returned:
  "replay f xs w = (map Inr rs, w') \<Longrightarrow> sequential_map f xs w = (Inr rs, w')"
proof (induction xs arbitrary: w rs w')
  case Nil
  then show ?case by simp
next
  case (Cons a xs)
  obtain out w1 where a: "f a w = (out, w1)" by (cases "f a w")
  obtain outs w2 where rest: "replay f xs w1 = (outs, w2)" by (cases "replay f xs w1")
  from Cons.prems have eq: "out # outs = map Inr rs" "w2 = w'"
    by (simp_all add: a rest)
  then obtain r rs' where rs: "rs = r # rs'" "out = Inr r" "outs = map Inr rs'"
    by (cases rs) auto
  have "sequential_map f xs w1 = (Inr rs', w')"
    using Cons.IH [of w1 rs'] rest rs(3) eq(2) by simp
  then show ?case by (simp add: a rs)
qed

lemma dead_Cons: "dead (p # ps) = dead [p] + dead ps"
  by (cases p) simp_all

lemma dead_update:
  "i < length ps \<Longrightarrow>
   dead (ps[i := p]) + dead [ps ! i] = dead ps + dead [p]"
proof (induction ps arbitrary: i)
  case Nil
  then show ?case by simp
next
  case (Cons q ps)
  show ?case
  proof (cases i)
    case 0
    show ?thesis
      using dead_Cons [of p ps] dead_Cons [of q ps] by (simp add: 0)
  next
    case (Suc j)
    then have "j < length ps" using Cons.prems by simp
    from Cons.IH [OF this] show ?thesis
      using dead_Cons [of q "ps[j := p]"] dead_Cons [of q ps] by (simp add: Suc)
  qed
qed

lemma dead_none: "dead ps = 0 \<longleftrightarrow> Dead \<notin> set ps"
  by (induction ps rule: dead.induct) simp_all

lemma dead_replicate_Idle: "dead (replicate n Idle) = 0"
  by (induction n) simp_all

text \<open>
  What holds in every state of a run that started in the world \<open>w0\<close>: the invocations that
  have ended, those the workers are running, those in the queue of work and those the parent
  has still to put are the submitted ones, each once; the shared world is the world the ended
  invocations have left; the results collected and the results waiting in the queue are the
  results of the ended invocations, in the order in which they ended; and as many workers have
  stopped as invocations have raised.
\<close>

definition chronicle ::
  "('a \<Rightarrow> 'r action) \<Rightarrow> 'a list \<Rightarrow> world \<Rightarrow> ('a, 'r) pool_state \<Rightarrow> bool" where
  "chronicle f args w0 s =
     (\<exists>done. mset done + busy (workers s) + mset (work_queue s) + mset (to_put (parent s))
               = mset args
        \<and> snd (replay f done w0) = shared s
        \<and> returned (fst (replay f done w0)) = collected (parent s) @ results_queue s
        \<and> raised (fst (replay f done w0)) = dead (workers s))"

lemma chronicle_start: "chronicle f args w0 (start threads args w0)"
  unfolding chronicle_def
  by (rule exI [of _ "[]"]) (simp add: start_def busy_replicate_Idle dead_replicate_Idle)

lemma chronicle_step:
  assumes st: "step f args s s'" and ch: "chronicle f args w0 s"
  shows "chronicle f args w0 s'"
proof -
  from ch obtain finished where
    args: "mset finished + busy (workers s) + mset (work_queue s) + mset (to_put (parent s))
               = mset args"
    and world: "snd (replay f finished w0) = shared s"
    and res: "returned (fst (replay f finished w0)) = collected (parent s) @ results_queue s"
    and lost: "raised (fst (replay f finished w0)) = dead (workers s)"
    unfolding chronicle_def by blast
  obtain outs where rp: "replay f finished w0 = (outs, shared s)"
    using world by (cases "replay f finished w0") simp
  have res': "returned outs = collected (parent s) @ results_queue s"
    and lost': "raised outs = dead (workers s)"
    using res lost by (simp_all add: rp)
  from st show ?thesis
  proof (cases rule: step.cases)
    case (put arg rest)
    show ?thesis
      unfolding chronicle_def
      by (rule exI [of _ finished]) (use args world res lost put in \<open>simp add: ac_simps\<close>)
  next
    case all_put
    show ?thesis
      unfolding chronicle_def
      by (rule exI [of _ finished]) (use args world res lost all_put in simp)
  next
    case join
    show ?thesis
      unfolding chronicle_def
      by (rule exI [of _ finished]) (use args world res lost join in simp)
  next
    case (get_result k results r queue)
    show ?thesis
      unfolding chronicle_def
      by (rule exI [of _ finished]) (use args world res lost get_result in simp)
  next
    case (return results)
    show ?thesis
      unfolding chronicle_def
      by (rule exI [of _ finished]) (use args world res lost return in simp)
  next
    case (take i arg queue)
    have b: "busy ((workers s)[i := Busy arg]) = add_mset arg (busy (workers s))"
      using take by (simp add: busy_take)
    have d: "dead ((workers s)[i := Busy arg]) = dead (workers s)"
      using dead_update [of i "workers s" "Busy arg"] take by simp
    show ?thesis
      unfolding chronicle_def
      by (rule exI [of _ finished]) (use args world res lost take in \<open>simp add: b d\<close>)
  next
    case (finish i arg r w')
    have b: "add_mset arg (busy ((workers s)[i := Idle])) = busy (workers s)"
      using finish by (simp add: busy_done)
    have d: "dead ((workers s)[i := Idle]) = dead (workers s)"
      using dead_update [of i "workers s" Idle] finish by simp
    have rp': "replay f (finished @ [arg]) w0 = (outs @ [Inr r], w')"
      using finish by (simp add: replay_snoc rp)
    have a: "mset (finished @ [arg]) + busy ((workers s)[i := Idle]) + mset (work_queue s)
        + mset (to_put (parent s)) = mset args"
      using args by (simp add: b [symmetric])
    show ?thesis
      unfolding chronicle_def
      by (rule exI [of _ "finished @ [arg]"])
        (use a res' lost' finish in \<open>simp add: rp' returned_append raised_append d\<close>)
  next
    case (die i arg e w')
    have b: "add_mset arg (busy ((workers s)[i := Dead])) = busy (workers s)"
      using die by (simp add: busy_done)
    have d: "dead ((workers s)[i := Dead]) = Suc (dead (workers s))"
      using dead_update [of i "workers s" Dead] die by simp
    have rp': "replay f (finished @ [arg]) w0 = (outs @ [Inl e], w')"
      using die by (simp add: replay_snoc rp)
    have a: "mset (finished @ [arg]) + busy ((workers s)[i := Dead]) + mset (work_queue s)
        + mset (to_put (parent s)) = mset args"
      using args by (simp add: b [symmetric])
    show ?thesis
      unfolding chronicle_def
      by (rule exI [of _ "finished @ [arg]"])
        (use a res' lost' die in \<open>simp add: rp' returned_append raised_append d\<close>)
  qed
qed

lemma chronicle_reachable:
  assumes "rtranclp (step f args) (start threads args w0) s"
  shows "chronicle f args w0 s"
  using assms
proof (induction rule: rtranclp_induct)
  case base
  show ?case by (rule chronicle_start)
next
  case (step s s')
  then show ?case using chronicle_step by blast
qed

text \<open>
  When the parent has returned, every invocation has ended and none has raised: the results
  are those of the sequential map over the submitted arguments, taken in the order in which
  the invocations ended.
\<close>

lemma returned_replay:
  assumes reach: "rtranclp (step f args) (start threads args w0) s"
    and ret: "parent s = Returned results"
  shows "length results = length args
     \<and> (\<exists>order. mset order = mset args \<and> sequential_map f order w0 = (Inr results, shared s))"
proof -
  note inv = invariant_reachable [OF reach]
  have len: "length results = length args" and zero: "unfinished_tasks s = 0"
    using inv ret by (simp_all add: invariant_def phased_def)
  have "size (busy (workers s)) + length (work_queue s) = 0"
    using inv zero by (simp add: invariant_def counted_def)
  then have idle: "busy (workers s) = {#}" "work_queue s = []" by simp_all
  from chronicle_reachable [OF reach] obtain finished where
    args: "mset finished + busy (workers s) + mset (work_queue s) + mset (to_put (parent s))
               = mset args"
    and world: "snd (replay f finished w0) = shared s"
    and res: "returned (fst (replay f finished w0)) = collected (parent s) @ results_queue s"
    unfolding chronicle_def by blast
  obtain outs where rp: "replay f finished w0 = (outs, shared s)"
    using world by (cases "replay f finished w0") simp
  have all: "mset finished = mset args"
    using args by (simp add: idle ret)
  have "length finished = length args"
    using arg_cong [OF all, of size] by simp
  then have n: "length outs = length args"
    using length_replay [of f finished w0] by (simp add: rp)
  have res': "returned outs = results @ results_queue s"
    using res by (simp add: rp ret)
  have "length (returned outs) + raised outs = length args"
    using length_returned [of outs] n by simp
  then have "raised outs = 0" "results_queue s = []"
    using res' len by simp_all
  then have "outs = map Inr results"
    using raised_none [of outs] res' by simp
  then have "sequential_map f finished w0 = (Inr results, shared s)"
    using rp by (intro replay_all_returned) simp
  then show ?thesis using len all by blast
qed

lemma progress_alive:
  assumes reach: "rtranclp (step f args) (start threads args w0) s"
    and n: "1 < threads"
    and alive: "Dead \<notin> set (workers s)"
    and going: "\<forall>results. parent s \<noteq> Returned results"
  shows "\<exists>s'. step f args s s'"
proof -
  note inv = invariant_reachable [OF reach]
  have cnt: "unfinished_tasks s = size (busy (workers s)) + length (work_queue s)"
    using inv by (simp add: invariant_def counted_def)
  have len: "length (workers s) = nat threads" using inv by (simp add: invariant_def)
  from chronicle_reachable [OF reach] obtain finished where
    args: "mset finished + busy (workers s) + mset (work_queue s) + mset (to_put (parent s))
               = mset args"
    and world: "snd (replay f finished w0) = shared s"
    and res: "returned (fst (replay f finished w0)) = collected (parent s) @ results_queue s"
    and lost: "raised (fst (replay f finished w0)) = dead (workers s)"
    unfolding chronicle_def by blast
  have none: "raised (fst (replay f finished w0)) = 0"
    using lost alive by (simp add: dead_none)
  show ?thesis
  proof (cases "parent s")
    case (Putting rest)
    show ?thesis
    proof (cases rest)
      case Nil
      then show ?thesis using step.all_put [of s f args] Putting by blast
    next
      case (Cons arg rest')
      then show ?thesis using step.put [of s arg rest' f args] Putting by blast
    qed
  next
    case Joining
    show ?thesis
    proof (cases "unfinished_tasks s = 0")
      case True
      then show ?thesis using step.join [of s f args] Joining by blast
    next
      case False
      show ?thesis
      proof (cases "busy (workers s) = {#}")
        case busy: False
        from busy_nonempty [OF busy] obtain i a where i: "i < length (workers s)"
          and a: "workers s ! i = Busy a" by blast
        obtain out w' where run: "f a (shared s) = (out, w')" by (cases "f a (shared s)")
        show ?thesis
        proof (cases out)
          case (Inl e)
          then show ?thesis using step.die [OF i a, of f e w' args] run by blast
        next
          case (Inr r)
          then show ?thesis using step.finish [OF i a, of f r w' args] run by blast
        qed
      next
        case idle: True
        then have "work_queue s \<noteq> []" using False cnt by simp
        then obtain arg queue where q: "work_queue s = arg # queue"
          by (cases "work_queue s") auto
        have zero: "0 < length (workers s)" using n len by simp
        define p where "p = workers s ! 0"
        have mem: "p \<in> set (workers s)" using zero by (simp add: p_def)
        have nobusy: "\<And>a. Busy a \<notin> set (workers s)"
          by (simp add: busy_empty_no_Busy [OF idle])
        have "p = Idle"
        proof (cases p)
          case Idle
          then show ?thesis .
        next
          case (Busy a)
          then show ?thesis using mem nobusy [of a] by simp
        next
          case Dead
          then show ?thesis using mem alive by simp
        qed
        then have "workers s ! 0 = Idle" by (simp add: p_def)
        then show ?thesis using step.take [OF zero _ q, of f args] by blast
      qed
    qed
  next
    case (Collecting k results)
    show ?thesis
    proof (cases k)
      case 0
      then show ?thesis using step.return [of s results f args] Collecting by blast
    next
      case (Suc j)
      have ph: "Suc j + length results = length args" "unfinished_tasks s = 0"
        using inv Collecting Suc by (simp_all add: invariant_def phased_def)
      then have idle: "busy (workers s) = {#}" "work_queue s = []"
        using cnt by simp_all
      have all: "mset finished = mset args"
        using args by (simp add: idle Collecting)
      have "length finished = length args"
        using arg_cong [OF all, of size] by simp
      then have "length (fst (replay f finished w0)) = length args"
        by (simp add: length_replay)
      then have "length (returned (fst (replay f finished w0))) = length args"
        using length_returned [of "fst (replay f finished w0)"] none by simp
      then have "length results + length (results_queue s) = length args"
        using res by (simp add: Collecting)
      then have "results_queue s \<noteq> []" using ph(1) by auto
      then obtain r queue where "results_queue s = r # queue"
        by (cases "results_queue s") auto
      then show ?thesis
        using step.get_result [of s j results r queue f args] Collecting Suc by blast
    qed
  next
    case (Returned results)
    then show ?thesis using going by simp
  qed
qed

lemma sequential_map_values:
  assumes "sequential_map f xs w = (Inr rs, w')"
    and "\<forall>a \<in> set xs. \<forall>s0 r s1. f a s0 = (Inr r, s1) \<longrightarrow> r = g a"
  shows "rs = map g xs"
  using assms
proof (induction xs arbitrary: w rs w')
  case Nil
  then show ?case by simp
next
  case (Cons a xs)
  obtain out w1 where a: "f a w = (out, w1)" by (cases "f a w")
  from Cons.prems(1) obtain r where out: "out = Inr r"
    by (cases out) (simp_all add: a)
  obtain res w2 where rest: "sequential_map f xs w1 = (res, w2)"
    by (cases "sequential_map f xs w1")
  from Cons.prems(1) obtain rs' where res: "res = Inr rs'" and rs: "rs = r # rs'"
    by (cases res) (auto simp: a out rest)
  have "r = g a" using Cons.prems(2) a out by auto
  moreover have "rs' = map g xs"
    using Cons.IH [of w1 rs' w2] rest res Cons.prems(2) by simp
  ultimately show ?case by (simp add: rs)
qed

text \<open>A worker that has stopped stays stopped, and the parent returns only when none has.\<close>

lemma Dead_step:
  assumes "step f args s s'" and "Dead \<in> set (workers s)"
  shows "Dead \<in> set (workers s')"
proof -
  have keep: "Dead \<in> set (ps[i := p])"
    if "Dead \<in> set ps" "i < length ps" "ps ! i \<noteq> Dead" for ps :: "'a worker list" and i p
  proof -
    from that(1) obtain j where j: "j < length ps" "ps ! j = Dead"
      by (auto simp: in_set_conv_nth)
    then have "j \<noteq> i" using that(3) by auto
    then have "ps[i := p] ! j = Dead" using j by simp
    then show ?thesis using j(1) by (metis length_list_update nth_mem)
  qed
  from assms show ?thesis
    by (cases rule: step.cases) (auto intro: keep)
qed

lemma Dead_reachable:
  assumes "rtranclp (step f args) s s'" and "Dead \<in> set (workers s)"
  shows "Dead \<in> set (workers s')"
  using assms by (induction rule: rtranclp_induct) (auto intro: Dead_step)

lemma returned_alive:
  assumes reach: "rtranclp (step f args) (start threads args w0) s"
    and ret: "parent s = Returned results"
  shows "Dead \<notin> set (workers s)"
proof -
  note inv = invariant_reachable [OF reach]
  have len: "length results = length args" and zero: "unfinished_tasks s = 0"
    using inv ret by (simp_all add: invariant_def phased_def)
  have "size (busy (workers s)) + length (work_queue s) = 0"
    using inv zero by (simp add: invariant_def counted_def)
  then have idle: "busy (workers s) = {#}" "work_queue s = []" by simp_all
  from chronicle_reachable [OF reach] obtain finished where
    args: "mset finished + busy (workers s) + mset (work_queue s) + mset (to_put (parent s))
               = mset args"
    and res: "returned (fst (replay f finished w0)) = collected (parent s) @ results_queue s"
    and lost: "raised (fst (replay f finished w0)) = dead (workers s)"
    unfolding chronicle_def by blast
  have all: "mset finished = mset args"
    using args by (simp add: idle ret)
  have "length finished = length args"
    using arg_cong [OF all, of size] by simp
  then have n: "length (fst (replay f finished w0)) = length args"
    by (simp add: length_replay)
  have "length (returned (fst (replay f finished w0))) + raised (fst (replay f finished w0))
          = length args"
    using length_returned [of "fst (replay f finished w0)"] n by simp
  then have "raised (fst (replay f finished w0)) = 0"
    using res len by (simp add: ret)
  then show ?thesis using lost by (simp add: dead_none)
qed

subsection \<open>The run in the order of the arguments\<close>

text \<open>
  One run among others: the parent puts every argument, one worker takes them and ends them one
  after the other, and the parent collects the results. It returns what the sequential map
  returns.
\<close>

lemma sequential_map_length:
  "sequential_map f xs w = (Inr rs, w') \<Longrightarrow> length rs = length xs"
proof (induction xs arbitrary: w rs w')
  case Nil
  then show ?case by simp
next
  case (Cons a xs)
  obtain out w1 where a: "f a w = (out, w1)" by (cases "f a w")
  from Cons.prems obtain r where out: "out = Inr r"
    by (cases out) (simp_all add: a)
  obtain res w2 where rest: "sequential_map f xs w1 = (res, w2)"
    by (cases "sequential_map f xs w1")
  from Cons.prems obtain rs' where res: "res = Inr rs'" and rs: "rs = r # rs'"
    by (cases res) (auto simp: a out rest)
  have "length rs' = length xs"
    using Cons.IH [of w1 rs' w2] rest res by simp
  then show ?case by (simp add: rs)
qed

lemma run_puts:
  "parent s = Putting rest \<Longrightarrow>
   rtranclp (step f args) s
     (s\<lparr>parent := Joining, work_queue := work_queue s @ rest,
        unfinished_tasks := unfinished_tasks s + length rest\<rparr>)"
proof (induction rest arbitrary: s)
  case Nil
  have "step f args s (s\<lparr>parent := Joining\<rparr>)"
    using Nil by (rule step.all_put)
  then show ?case by simp
next
  case (Cons a rest)
  define s1 where "s1 = s\<lparr>parent := Putting rest, work_queue := work_queue s @ [a],
          unfinished_tasks := Suc (unfinished_tasks s)\<rparr>"
  have one: "step f args s s1"
    unfolding s1_def using Cons.prems by (rule step.put)
  have "parent s1 = Putting rest" by (simp add: s1_def)
  from Cons.IH [OF this]
  have "rtranclp (step f args) s1
     (s\<lparr>parent := Joining, work_queue := work_queue s @ a # rest,
        unfinished_tasks := unfinished_tasks s + length (a # rest)\<rparr>)"
    by (simp add: s1_def)
  then show ?case using one by (rule converse_rtranclp_into_rtranclp [rotated])
qed

lemma run_works:
  assumes "0 < length (workers s)" and "workers s ! 0 = Idle"
    and "work_queue s = xs" and "sequential_map f xs (shared s) = (Inr rs, w')"
  shows "rtranclp (step f args) s
     (s\<lparr>work_queue := [], results_queue := results_queue s @ rs,
        unfinished_tasks := unfinished_tasks s - length xs, shared := w'\<rparr>)"
  using assms
proof (induction xs arbitrary: s rs)
  case Nil
  then have "s\<lparr>work_queue := [], results_queue := results_queue s @ rs,
        unfinished_tasks := unfinished_tasks s - length ([] :: 'a list), shared := w'\<rparr> = s"
    by simp
  then show ?case by simp
next
  case (Cons a xs)
  obtain out w1 where a: "f a (shared s) = (out, w1)" by (cases "f a (shared s)")
  from Cons.prems(4) obtain r where out: "out = Inr r"
    by (cases out) (simp_all add: a)
  obtain res w2 where rest: "sequential_map f xs w1 = (res, w2)"
    by (cases "sequential_map f xs w1")
  from Cons.prems(4) obtain rs' where res: "res = Inr rs'" and rs: "rs = r # rs'"
    and w2: "w2 = w'"
    by (cases res) (auto simp: a out rest)
  define s1 where "s1 = s\<lparr>workers := (workers s)[0 := Busy a], work_queue := xs\<rparr>"
  define s2 where "s2 = s1\<lparr>workers := (workers s1)[0 := Idle],
          results_queue := results_queue s1 @ [r],
          unfinished_tasks := unfinished_tasks s1 - 1, shared := w1\<rparr>"
  have one: "step f args s s1"
    unfolding s1_def using Cons.prems(1,2,3) by (rule step.take)
  have "0 < length (workers s1)" "workers s1 ! 0 = Busy a" "f a (shared s1) = (Inr r, w1)"
    using Cons.prems(1) a out by (simp_all add: s1_def)
  then have two: "step f args s1 s2"
    unfolding s2_def by (rule step.finish)
  have same: "(workers s)[0 := Idle] = workers s"
    using Cons.prems(2) by (metis list_update_id)
  have ws: "workers s2 = workers s"
    by (simp add: s2_def s1_def same)
  have "rtranclp (step f args) s2
     (s2\<lparr>work_queue := [], results_queue := results_queue s2 @ rs',
        unfinished_tasks := unfinished_tasks s2 - length xs, shared := w'\<rparr>)"
  proof (rule Cons.IH)
    show "0 < length (workers s2)" using Cons.prems(1) by (simp add: ws)
    show "workers s2 ! 0 = Idle" using Cons.prems(2) by (simp add: ws)
    show "work_queue s2 = xs" by (simp add: s2_def s1_def)
    show "sequential_map f xs (shared s2) = (Inr rs', w')"
      using rest res w2 by (simp add: s2_def)
  qed
  moreover have "s2\<lparr>work_queue := [], results_queue := results_queue s2 @ rs',
        unfinished_tasks := unfinished_tasks s2 - length xs, shared := w'\<rparr>
     = s\<lparr>work_queue := [], results_queue := results_queue s @ rs,
        unfinished_tasks := unfinished_tasks s - length (a # xs), shared := w'\<rparr>"
    by (simp add: s2_def s1_def same rs)
  ultimately have "rtranclp (step f args) s2
     (s\<lparr>work_queue := [], results_queue := results_queue s @ rs,
        unfinished_tasks := unfinished_tasks s - length (a # xs), shared := w'\<rparr>)"
    by simp
  then show ?case using one two
    by (meson converse_rtranclp_into_rtranclp)
qed

lemma run_collects:
  "parent s = Collecting (length q) acc \<Longrightarrow> results_queue s = q \<Longrightarrow>
   rtranclp (step f args) s (s\<lparr>parent := Returned (acc @ q), results_queue := []\<rparr>)"
proof (induction q arbitrary: s acc)
  case Nil
  then have "step f args s (s\<lparr>parent := Returned acc\<rparr>)"
    using step.return [of s acc f args] by simp
  moreover have "s\<lparr>parent := Returned (acc @ []), results_queue := []\<rparr> = s\<lparr>parent := Returned acc\<rparr>"
    using Nil.prems(2) by simp
  ultimately show ?case by simp
next
  case (Cons r q)
  define s1 where "s1 = s\<lparr>parent := Collecting (length q) (acc @ [r]), results_queue := q\<rparr>"
  have one: "step f args s s1"
    unfolding s1_def using Cons.prems step.get_result [of s "length q" acc r q f args] by simp
  have "rtranclp (step f args) s1 (s1\<lparr>parent := Returned ((acc @ [r]) @ q), results_queue := []\<rparr>)"
    by (rule Cons.IH) (simp_all add: s1_def)
  then have "rtranclp (step f args) s1 (s\<lparr>parent := Returned (acc @ r # q), results_queue := []\<rparr>)"
    by (simp add: s1_def)
  then show ?case using one by (meson converse_rtranclp_into_rtranclp)
qed

lemma in_order_run:
  fixes f :: "'a \<Rightarrow> 'r action"
  assumes n: "1 < threads"
    and seq: "sequential_map f args w0 = (Inr rs, w')"
  shows "\<exists>s. rtranclp (step f args) (start threads args w0) s
           \<and> parent s = Returned rs \<and> shared s = w'"
proof -
  define s0 :: "('a, 'r) pool_state" where "s0 = start threads args w0"
  define s1 where "s1 = s0\<lparr>parent := Joining, work_queue := work_queue s0 @ args,
        unfinished_tasks := unfinished_tasks s0 + length args\<rparr>"
  define s2 where "s2 = s1\<lparr>work_queue := [], results_queue := results_queue s1 @ rs,
        unfinished_tasks := unfinished_tasks s1 - length args, shared := w'\<rparr>"
  define s3 where "s3 = s2\<lparr>parent := Collecting (length args) []\<rparr>"
  define s4 where "s4 = s3\<lparr>parent := Returned ([] @ rs), results_queue := []\<rparr>"
  have len: "length rs = length args" using seq by (rule sequential_map_length)
  have "parent s0 = Putting args" by (simp add: s0_def start_def)
  then have r1: "rtranclp (step f args) s0 s1" unfolding s1_def by (rule run_puts)
  have r2: "rtranclp (step f args) s1 s2"
    unfolding s2_def
  proof (rule run_works)
    show "0 < length (workers s1)" using n by (simp add: s1_def s0_def start_def)
    show "workers s1 ! 0 = Idle" using n by (simp add: s1_def s0_def start_def)
    show "work_queue s1 = args" by (simp add: s1_def s0_def start_def)
    show "sequential_map f args (shared s1) = (Inr rs, w')"
      using seq by (simp add: s1_def s0_def start_def)
  qed
  have "parent s2 = Joining" "unfinished_tasks s2 = 0"
    by (simp_all add: s2_def s1_def s0_def start_def)
  then have r3: "step f args s2 s3" unfolding s3_def by (rule step.join)
  have "parent s3 = Collecting (length rs) []" "results_queue s3 = rs"
    by (simp_all add: s3_def s2_def s1_def s0_def start_def len)
  then have r4: "rtranclp (step f args) s3 s4" unfolding s4_def by (rule run_collects)
  have "rtranclp (step f args) s0 s4"
    using r1 r2 r3 r4 by (meson rtranclp.rtrancl_into_rtrancl rtranclp_trans)
  moreover have "parent s4 = Returned rs" "shared s4 = w'"
    by (simp_all add: s4_def s3_def s2_def)
  ultimately show ?thesis unfolding s0_def by blast
qed


section \<open>The claims about the Parallel Dispatcher\<close>

lemma persistent_outcome:
  assumes "1 < threads"
  shows "command_multiprocessing threads args f True w out \<longleftrightarrow>
     (\<exists>s results. rtranclp (step f args) (start threads args (create_processes threads w)) s
        \<and> parent s = Returned results \<and> out = (Inr results, shared s))"
proof
  assume "command_multiprocessing threads args f True w out"
  then show "\<exists>s results. rtranclp (step f args) (start threads args (create_processes threads w)) s
        \<and> parent s = Returned results \<and> out = (Inr results, shared s)"
  proof (cases rule: command_multiprocessing.cases)
    case sequential
    then show ?thesis using assms by simp
  next
    case (pool out')
    then show ?thesis by simp
  next
    case (persistent s results)
    then show ?thesis by blast
  qed
next
  assume "\<exists>s results. rtranclp (step f args) (start threads args (create_processes threads w)) s
        \<and> parent s = Returned results \<and> out = (Inr results, shared s)"
  then show "command_multiprocessing threads args f True w out"
    using command_multiprocessing.persistent [OF assms, of True f args w] by auto
qed

text \<open>
  A function a caller can give to the dispatcher: the length of the name of a file that is
  there, \<open>OSError\<close> when it is not. Whether it returns depends on the world it runs in.
\<close>

definition name_length :: "path \<Rightarrow> nat action" where
  "name_length p w =
     (if isfile (fs w) p then returns (length p) w else raise (PyExc OSError p) w)"

text \<open>
  Claim C3, as stated, fails: when an invocation raises, the dispatch with persistent workers
  returns no results at all. Five invocations, the third of which raises
  \<open>CalledProcessError\<close>, with two, with four and with eight workers: the call has no outcome.
\<close>

theorem persistent_dispatch_results_counterexample:
  "\<not> (\<exists>out. command_multiprocessing 2 [1, 2, 3, 4, 5 :: nat]
          (\<lambda>i. if i = 3 then raise (PyExc CalledProcessError ''tool'') else (returns i :: nat action))
          True demo_world out)
   \<and> \<not> (\<exists>out. command_multiprocessing 4 [1, 2, 3, 4, 5 :: nat]
          (\<lambda>i. if i = 3 then raise (PyExc CalledProcessError ''tool'') else (returns i :: nat action))
          True demo_world out)
   \<and> \<not> (\<exists>out. command_multiprocessing 8 [1, 2, 3, 4, 5 :: nat]
          (\<lambda>i. if i = 3 then raise (PyExc CalledProcessError ''tool'') else (returns i :: nat action))
          True demo_world out)"
proof -
  let ?f = "\<lambda>i :: nat. if i = 3 then raise (PyExc CalledProcessError ''tool'')
                      else (returns i :: nat action)"
  have third: "(3::nat) \<in> set [1, 2, 3, 4, 5]" by simp
  have raises: "\<exists>e. fst (?f 3 s0) = Inl e" for s0
    by (simp add: raise_def)
  have "\<not> (\<exists>out. command_multiprocessing threads [1, 2, 3, 4, 5] ?f True demo_world out)"
    if "1 < threads" for threads
    using that third raises by (rule no_outcome [where a = 3])
  from this [of 2] this [of 4] this [of 8] show ?thesis by simp
qed

text \<open>
  Claim C3, amended: a dispatch with persistent workers and more than one worker, over a list
  of \<open>N\<close> invocations, returns to its caller exactly when no invocation raises, and then
  it returns exactly \<open>N\<close> results, one per submitted invocation, none lost and none twice.
  In full, for every number of workers greater than one, every function, every list of
  arguments and every world:
  \<^item> whenever the dispatcher returns, it returns as many results as there are arguments, and
    they are the results of calling the function once on each submitted argument, the calls
    running one after the other, in some order, from the world the workers started in;
  \<^item> when the sequential map over the arguments returns, the dispatcher can return the same
    results and leave the same world;
  \<^item> a run in which no invocation has raised is never blocked before the parent has returned:
    in each of its states the parent has returned, which is an outcome of the dispatcher, or a
    step is possible;
  \<^item> once an invocation has raised, the parent never returns;
  \<^item> every step makes the measure \<open>potential\<close> smaller, so no run goes on for ever: a run
    in which no invocation raises ends with the parent returning;
  \<^item> when the result of an invocation that returns depends on its argument only, the results
    are those of the arguments, each once.
\<close>

theorem persistent_dispatch_results:
  fixes "function" :: "'a \<Rightarrow> 'r action"
  assumes threads: "1 < threads"
  shows "(\<forall>out. command_multiprocessing threads args function True w out \<longrightarrow>
           (\<exists>results w'. out = (Inr results, w') \<and> length results = length args
              \<and> (\<exists>order. mset order = mset args
                    \<and> sequential_map function order (create_processes threads w)
                        = (Inr results, w'))))
     \<and> (\<forall>results w'. sequential_map function args (create_processes threads w) = (Inr results, w')
           \<longrightarrow> command_multiprocessing threads args function True w (Inr results, w'))
     \<and> (\<forall>s. rtranclp (step function args) (start threads args (create_processes threads w)) s
              \<and> Dead \<notin> set (workers s) \<longrightarrow>
           (\<exists>results. parent s = Returned results
              \<and> command_multiprocessing threads args function True w (Inr results, shared s))
           \<or> (\<exists>s'. step function args s s'))
     \<and> (\<forall>s. rtranclp (step function args) (start threads args (create_processes threads w)) s
              \<and> Dead \<in> set (workers s) \<longrightarrow>
           \<not> (\<exists>s' results. rtranclp (step function args) s s' \<and> parent s' = Returned results))
     \<and> (\<forall>s s'. step function args s s' \<longrightarrow> potential s' < potential s)
     \<and> (\<forall>g results w'.
           (\<forall>a \<in> set args. \<forall>s0 r s1. function a s0 = (Inr r, s1) \<longrightarrow> r = g a)
           \<and> command_multiprocessing threads args function True w (Inr results, w')
           \<longrightarrow> mset results = mset (map g args))"
proof -
  let ?w0 = "create_processes threads w"
  let ?start = "start threads args ?w0 :: ('a, 'r) pool_state"
  have every: "\<exists>results w'. out = (Inr results, w') \<and> length results = length args
              \<and> (\<exists>order. mset order = mset args
                    \<and> sequential_map function order ?w0 = (Inr results, w'))"
    if "command_multiprocessing threads args function True w out" for out
  proof -
    from that obtain s results where reach: "rtranclp (step function args) ?start s"
      and ret: "parent s = Returned results" and out: "out = (Inr results, shared s)"
      using persistent_outcome [OF threads] by blast
    from returned_replay [OF reach ret] show ?thesis using out by blast
  qed
  have in_order: "command_multiprocessing threads args function True w (Inr results, w')"
    if "sequential_map function args ?w0 = (Inr results, w')" for results w'
  proof -
    from in_order_run [OF threads that]
    obtain s where "rtranclp (step function args) ?start s" "parent s = Returned results"
      "shared s = w'"
      by blast
    then show ?thesis using persistent_outcome [OF threads] by blast
  qed
  have live: "(\<exists>results. parent s = Returned results
              \<and> command_multiprocessing threads args function True w (Inr results, shared s))
           \<or> (\<exists>s'. step function args s s')"
    if reach: "rtranclp (step function args) ?start s" and alive: "Dead \<notin> set (workers s)" for s
  proof (cases "\<exists>results. parent s = Returned results")
    case True
    then obtain results where ret: "parent s = Returned results" ..
    have "command_multiprocessing threads args function True w (Inr results, shared s)"
      using persistent_outcome [OF threads] reach ret by blast
    then show ?thesis using ret by blast
  next
    case False
    then show ?thesis using progress_alive [OF reach threads alive] by blast
  qed
  have lost: "\<not> (\<exists>s' results. rtranclp (step function args) s s' \<and> parent s' = Returned results)"
    if reach: "rtranclp (step function args) ?start s" and gone: "Dead \<in> set (workers s)" for s
  proof
    assume "\<exists>s' results. rtranclp (step function args) s s' \<and> parent s' = Returned results"
    then obtain s' results where on: "rtranclp (step function args) s s'"
      and ret: "parent s' = Returned results"
      by blast
    have "rtranclp (step function args) ?start s'"
      using reach on by (rule rtranclp_trans)
    then have "Dead \<notin> set (workers s')" using ret by (rule returned_alive)
    then show False using Dead_reachable [OF on gone] by simp
  qed
  have finite: "potential s' < potential s" if "step function args s s'" for s s'
    using that by (rule potential_step)
  have by_value: "mset results = mset (map g args)"
    if val: "\<forall>a \<in> set args. \<forall>s0 r s1. function a s0 = (Inr r, s1) \<longrightarrow> r = g a"
      and run: "command_multiprocessing threads args function True w (Inr results, w')"
    for g results w'
  proof -
    from every [OF run] obtain order where perm: "mset order = mset args"
      and seq: "sequential_map function order ?w0 = (Inr results, w')"
      by blast
    have "set order = set args" using perm by (metis set_mset_mset)
    then have "\<forall>a \<in> set order. \<forall>s0 r s1. function a s0 = (Inr r, s1) \<longrightarrow> r = g a"
      using val by simp
    from sequential_map_values [OF seq this] have "results = map g order" .
    then have "mset results = image_mset g (mset order)" by simp
    then show ?thesis by (simp add: perm)
  qed
  show ?thesis
    using every in_order live lost finite by_value by blast
qed


theorem persistent_dispatch_results_witness:
  "(1::int) < 2
   \<and> fst (name_length ''absent.txt'' demo_world) = Inl (PyExc OSError ''absent.txt'')
   \<and> sequential_map name_length [''in.txt'', ''out.txt''] (create_processes 2 demo_world)
       = (Inr [6, 7], create_processes 2 demo_world)
   \<and> command_multiprocessing 2 [''in.txt'', ''out.txt''] name_length True demo_world
       (Inr [6, 7], create_processes 2 demo_world)
   \<and> length [6, 7 :: nat] = length [''in.txt'', ''out.txt'']
   \<and> \<not> (\<exists>w'. command_multiprocessing 2 [''in.txt'', ''out.txt''] name_length True demo_world
            (Inr [6], w'))
   \<and> \<not> (\<exists>w'. command_multiprocessing 2 [''in.txt'', ''out.txt''] name_length True demo_world
            (Inr [6, 6], w'))"
proof -
  let ?args = "[''in.txt'', ''out.txt'']"
  have h1: "(1::int) < 2" by simp
  note T = persistent_dispatch_results [OF h1, of ?args name_length demo_world]
  have absent: "fst (name_length ''absent.txt'' demo_world) = Inl (PyExc OSError ''absent.txt'')"
    by (simp add: name_length_def demo_world_def isfile_def raise_def)
  have seq: "sequential_map name_length ?args (create_processes 2 demo_world)
       = (Inr [6, 7], create_processes 2 demo_world)"
    by (simp add: name_length_def create_processes_def logger_def demo_world_def isfile_def
        plain_file_def returns_def)
  from T have "\<forall>results w'.
      sequential_map name_length ?args (create_processes 2 demo_world) = (Inr results, w')
      \<longrightarrow> command_multiprocessing 2 ?args name_length True demo_world (Inr results, w')"
    by (elim conjE)
  from this [rule_format, OF seq]
  have run: "command_multiprocessing 2 ?args name_length True demo_world
       (Inr [6, 7], create_processes 2 demo_world)" .
  from T have every: "\<forall>out. command_multiprocessing 2 ?args name_length True demo_world out \<longrightarrow>
           (\<exists>results w'. out = (Inr results, w') \<and> length results = length ?args
              \<and> (\<exists>order. mset order = mset ?args
                    \<and> sequential_map name_length order (create_processes 2 demo_world)
                        = (Inr results, w')))"
    by (elim conjE)
  have short: "\<not> (\<exists>w'. command_multiprocessing 2 ?args name_length True demo_world (Inr [6], w'))"
  proof
    assume "\<exists>w'. command_multiprocessing 2 ?args name_length True demo_world (Inr [6], w')"
    then obtain w' where "command_multiprocessing 2 ?args name_length True demo_world (Inr [6], w')" ..
    from every [rule_format, OF this] show False by simp
  qed
  from T have by_value: "\<forall>g results w'.
           (\<forall>a \<in> set ?args. \<forall>s0 r s1. name_length a s0 = (Inr r, s1) \<longrightarrow> r = g a)
           \<and> command_multiprocessing 2 ?args name_length True demo_world (Inr results, w')
           \<longrightarrow> mset results = mset (map g ?args)"
    by (elim conjE)
  have val: "\<forall>a \<in> set ?args. \<forall>s0 r s1. name_length a s0 = (Inr r, s1) \<longrightarrow> r = length a"
    by (auto simp: name_length_def returns_def raise_def split: if_splits)
  have twice: "\<not> (\<exists>w'. command_multiprocessing 2 ?args name_length True demo_world (Inr [6, 6], w'))"
  proof
    assume "\<exists>w'. command_multiprocessing 2 ?args name_length True demo_world (Inr [6, 6], w')"
    then obtain w' where
      "command_multiprocessing 2 ?args name_length True demo_world (Inr [6, 6], w')" ..
    with val have "mset [6, 6 :: nat] = mset (map length ?args)"
      using by_value [rule_format, of length "[6, 6]" w'] by blast
    then have "sum_mset (mset [6, 6 :: nat]) = sum_mset (mset (map length ?args))"
      by (rule arg_cong)
    then show False by simp
  qed
  show ?thesis
    using h1 absent seq run short twice by simp
qed

lemma lone_failure_sequential:
  "command_multiprocessing 1 [a] (\<lambda>x. raise e) lock w (on_error e w)"
  using command_multiprocessing.sequential [of 1 "[a]" "\<lambda>x. raise e" lock w]
  by (simp add: list_comprehension_def raise_def)

lemma lone_order: "distinct order \<Longrightarrow> set order \<subseteq> {..<Suc 0} \<Longrightarrow> order = [] \<or> order = [0]"
proof (cases order)
  case Nil
  then show ?thesis by simp
next
  case (Cons i rest)
  assume d: "distinct order" and sub: "set order \<subseteq> {..<Suc 0}"
  have i: "i = 0" using sub Cons by simp
  have "set rest \<subseteq> {0}" using sub Cons by auto
  moreover have "0 \<notin> set rest" using d Cons i by simp
  ultimately have "rest = []" by (cases rest) auto
  then show ?thesis using Cons i by simp
qed

lemma lone_failure_run:
  "run_tasks (\<lambda>x. raise e) [a] [0] w = ([(0, Inl e)], w)"
  by (simp add: raise_def)

lemma lone_failure_pool_map:
  "pool_map (\<lambda>x. raise e) [a] w out \<longleftrightarrow> out = (Inl e, w)"
proof
  assume "pool_map (\<lambda>x. raise e) [a] w out"
  then show "out = (Inl e, w)"
  proof (cases rule: pool_map.cases)
    case (all_done order outcomes w' results)
    have "set order \<subseteq> {..<Suc 0}" using all_done(3) by simp
    then have "order = [] \<or> order = [0]" using all_done(2) by (rule lone_order [rotated])
    moreover have "order \<noteq> []"
    proof -
      have "(0::nat) \<in> {..<length [a]}" by simp
      then have "0 \<in> set order" by (simp only: all_done(3))
      then show ?thesis by auto
    qed
    ultimately have "order = [0]" by simp
    then have "outcomes = [(0, Inl e)]"
      using all_done(4) by (simp only: lone_failure_run prod.inject)
    then show ?thesis using all_done(5) by simp
  next
    case (failed order outcomes w' e')
    have "set order \<subseteq> {..<Suc 0}" using failed(3) by simp
    then have "order = [] \<or> order = [0]" using failed(2) by (rule lone_order [rotated])
    then show ?thesis
    proof
      assume "order = []"
      then have "outcomes = []" using failed(4) by simp
      then show ?thesis using failed(5) by simp
    next
      assume "order = [0]"
      then have "outcomes = [(0, Inl e)] \<and> w' = w"
        using failed(4) by (simp only: lone_failure_run prod.inject)
      then show ?thesis using failed(1,5) by simp
    qed
  qed
next
  assume "out = (Inl e, w)"
  moreover have "pool_map (\<lambda>x. raise e) [a] w (Inl e, w)"
  proof (rule pool_map.failed [of "[0]" "[a]" _ w "[(0, Inl e)]"])
    show "distinct [0::nat]" by simp
    show "set [0::nat] \<subseteq> {..<length [a]}" by simp
    show "run_tasks (\<lambda>x. raise e) [a] [0] w = ([(0, Inl e)], w)" by (rule lone_failure_run)
    show "first_failure [(0::nat, Inl e)] = Some e" by simp
  qed
  ultimately show "pool_map (\<lambda>x. raise e) [a] w out" by simp
qed

lemma lone_failure_pool:
  "command_multiprocessing 2 [a] (\<lambda>x. raise e) False w out
     \<longleftrightarrow> out = on_error e (create_processes 2 w)"
proof
  assume "command_multiprocessing 2 [a] (\<lambda>x. raise e) False w out"
  then show "out = on_error e (create_processes 2 w)"
    by (cases rule: command_multiprocessing.cases) (simp_all add: lone_failure_pool_map)
next
  assume "out = on_error e (create_processes 2 w)"
  then show "command_multiprocessing 2 [a] (\<lambda>x. raise e) False w out"
    using command_multiprocessing.pool [of 2 False "\<lambda>x. raise e" "[a]" w "(Inl e, create_processes 2 w)"]
    by (simp add: lone_failure_pool_map)
qed

lemma lone_failure_persistent:
  "\<not> (\<exists>out. command_multiprocessing 2 [a] (\<lambda>x. raise e) True w out)"
  by (rule no_outcome [where a = a]) (simp_all add: raise_def)

text \<open>
  Claim C1 at a failing input: one invocation that raises \<open>ValueError\<close>, an exception
  the \<^verbatim>\<open>except\<close> clause catches. With one process the dispatcher logs the trace and the
  message and exits; with the process pool it does the same; with two persistent workers it has
  no outcome: the worker ends with the exception, the parent passes \<^verbatim>\<open>join\<close> and then
  waits for a result that no process is going to put, with nothing logged and no exit.
\<close>

theorem worker_error_not_reported:
  "isinstance (PyExc ValueError msg) [EnvironmentError, ValueError, CalledProcessError]
   \<and> command_multiprocessing 1 [a] (\<lambda>x. raise (PyExc ValueError msg) :: 'r action) True w
        (Inl (PyExc SystemExit fatal_message),
         logger CRITICAL fatal_message []
           (logger CRITICAL (''TRACEBACK: \<newline>'' @ format_exc (PyExc ValueError msg)) [] w))
   \<and> (\<forall>out. command_multiprocessing 2 [a] (\<lambda>x. raise (PyExc ValueError msg) :: 'r action) False w out
         \<longleftrightarrow> out = (Inl (PyExc SystemExit fatal_message),
                    logger CRITICAL fatal_message []
                      (logger CRITICAL (''TRACEBACK: \<newline>'' @ format_exc (PyExc ValueError msg)) []
                        (create_processes 2 w))))
   \<and> \<not> (\<exists>out. command_multiprocessing 2 [a] (\<lambda>x. raise (PyExc ValueError msg) :: 'r action) True w out)
   \<and> (\<exists>s. rtranclp (step (\<lambda>x. raise (PyExc ValueError msg) :: 'r action) [a])
              (start 2 [a] (create_processes 2 w)) s
         \<and> parent s = Collecting 1 [] \<and> results_queue s = [] \<and> workers s = [Dead, Idle]
         \<and> \<not> (\<exists>s'. step (\<lambda>x. raise (PyExc ValueError msg) :: 'r action) [a] s s'))"
proof -
  have caught: "isinstance (PyExc ValueError msg) [EnvironmentError, ValueError, CalledProcessError]"
    by (simp add: isinstance_def)
  have abort: "on_error (PyExc ValueError msg) v =
      (Inl (PyExc SystemExit fatal_message) :: pyexc + 'r list,
       logger CRITICAL fatal_message []
         (logger CRITICAL (''TRACEBACK: \<newline>'' @ format_exc (PyExc ValueError msg)) [] v))" for v
    using caught by (simp add: on_error_def)
  have seq: "command_multiprocessing 1 [a] (\<lambda>x. raise (PyExc ValueError msg) :: 'r action) True w
      (on_error (PyExc ValueError msg) w)"
    by (rule lone_failure_sequential)
  have pl: "command_multiprocessing 2 [a] (\<lambda>x. raise (PyExc ValueError msg) :: 'r action) False w out
      \<longleftrightarrow> out = on_error (PyExc ValueError msg) (create_processes 2 w)" for out
    by (rule lone_failure_pool)
  have pers: "\<not> (\<exists>out. command_multiprocessing 2 [a] (\<lambda>x. raise (PyExc ValueError msg) :: 'r action)
      True w out)"
    by (rule lone_failure_persistent)
  have blocks: "\<exists>s. rtranclp (step (\<lambda>x. raise (PyExc ValueError msg) :: 'r action) [a])
              (start 2 [a] (create_processes 2 w)) s
         \<and> parent s = Collecting 1 [] \<and> results_queue s = [] \<and> workers s = [Dead, Idle]
         \<and> \<not> (\<exists>s'. step (\<lambda>x. raise (PyExc ValueError msg) :: 'r action) [a] s s')"
    by (rule lone_failure_blocks)
  show ?thesis
    using caught seq pl pers blocks by (simp add: abort)
qed

text \<open>
  Claim C10 at a failing input: one invocation that raises \<open>KeyError\<close>, an exception the
  \<^verbatim>\<open>except\<close> clause does not catch. With one process and with the process pool the
  exception reaches the caller and nothing is logged by the handler; with two persistent
  workers the exception ends the worker and never reaches the caller: the call has no outcome.
\<close>

theorem unhandled_worker_error_lost:
  "\<not> isinstance (PyExc KeyError msg) [EnvironmentError, ValueError, CalledProcessError]
   \<and> command_multiprocessing 1 [a] (\<lambda>x. raise (PyExc KeyError msg) :: 'r action) True w
        (Inl (PyExc KeyError msg), w)
   \<and> (\<forall>out. command_multiprocessing 2 [a] (\<lambda>x. raise (PyExc KeyError msg) :: 'r action) False w out
         \<longleftrightarrow> out = (Inl (PyExc KeyError msg), create_processes 2 w))
   \<and> \<not> (\<exists>out. command_multiprocessing 2 [a] (\<lambda>x. raise (PyExc KeyError msg) :: 'r action) True w out)
   \<and> (\<exists>s. rtranclp (step (\<lambda>x. raise (PyExc KeyError msg) :: 'r action) [a])
              (start 2 [a] (create_processes 2 w)) s
         \<and> parent s = Collecting 1 [] \<and> results_queue s = [] \<and> workers s = [Dead, Idle]
         \<and> \<not> (\<exists>s'. step (\<lambda>x. raise (PyExc KeyError msg) :: 'r action) [a] s s'))"
proof -
  have free: "\<not> isinstance (PyExc KeyError msg) [EnvironmentError, ValueError, CalledProcessError]"
    by (simp add: isinstance_def)
  have pass: "on_error (PyExc KeyError msg) v = (Inl (PyExc KeyError msg) :: pyexc + 'r list, v)" for v
    using free by (simp add: on_error_def)
  have seq: "command_multiprocessing 1 [a] (\<lambda>x. raise (PyExc KeyError msg) :: 'r action) True w
      (on_error (PyExc KeyError msg) w)"
    by (rule lone_failure_sequential)
  have pl: "command_multiprocessing 2 [a] (\<lambda>x. raise (PyExc KeyError msg) :: 'r action) False w out
      \<longleftrightarrow> out = on_error (PyExc KeyError msg) (create_processes 2 w)" for out
    by (rule lone_failure_pool)
  have pers: "\<not> (\<exists>out. command_multiprocessing 2 [a] (\<lambda>x. raise (PyExc KeyError msg) :: 'r action)
      True w out)"
    by (rule lone_failure_persistent)
  have blocks: "\<exists>s. rtranclp (step (\<lambda>x. raise (PyExc KeyError msg) :: 'r action) [a])
              (start 2 [a] (create_processes 2 w)) s
         \<and> parent s = Collecting 1 [] \<and> results_queue s = [] \<and> workers s = [Dead, Idle]
         \<and> \<not> (\<exists>s'. step (\<lambda>x. raise (PyExc KeyError msg) :: 'r action) [a] s s')"
    by (rule lone_failure_blocks)
  show ?thesis
    using free seq pl pers blocks by (simp add: pass)
qed


end
